theory Spec2Isabelle
  imports Complex_Main "HOL-Library.Word" "HOL-Library.Multiset"
begin

unbundle bit_operations_syntax

section \<open>Data model of the loose octree (Scene/Octree.h)\<close>

text \<open>
  Coordinates are C++ \<^verbatim>\<open>float\<close>s. The octree only compares, halves and adds them, and
  they are modelled as reals; not-a-number values are outside the model. The fields
  \<^verbatim>\<open>x\<close>, \<^verbatim>\<open>y\<close>, \<^verbatim>\<open>z\<close> of \<^verbatim>\<open>Vector3\<close> and \<^verbatim>\<open>min\<close>, \<^verbatim>\<open>max\<close> of \<^verbatim>\<open>BoundingBox\<close> carry a
  prefix, since the bare names are variables and constants of HOL.
\<close>

record Vector3 =
  vec_x :: real
  vec_y :: real
  vec_z :: real

record BoundingBox =
  box_min :: Vector3
  box_max :: Vector3

text \<open>Result of a volume-against-box test (Math/BoundingBox.h, used by Octree.h).\<close>

datatype Intersection = OUTSIDE | INTERSECT | INSIDE

text \<open>
  An \<^verbatim>\<open>OctreeNode*\<close> is an address; the objects live in a heap that maps addresses to
  what the octree reads from them: \<^verbatim>\<open>WorldBoundingBox()\<close>, \<^verbatim>\<open>Flags()\<close> and the
  back-reference \<^verbatim>\<open>octant\<close>. An \<^verbatim>\<open>Octant*\<close> held by an object is the list of child
  indices that leads from the root to the octant; \<^verbatim>\<open>None\<close> is the null pointer.
\<close>

type_synonym OctreeNodePtr = nat

type_synonym OctantPtr = "nat list"

record OctreeNode =
  WorldBoundingBox :: BoundingBox
  Flags :: "32 word"
  node_octant :: "OctantPtr option"

text \<open>
  The template parameter \<^verbatim>\<open>T\<close> of \<^verbatim>\<open>FindNodes\<close> and \<^verbatim>\<open>CollectNodes\<close> (a frustum, a
  sphere, a box) is used through two member functions only.
\<close>

record Volume =
  IsInside :: "BoundingBox \<Rightarrow> Intersection"
  IsInsideFast :: "BoundingBox \<Rightarrow> Intersection"

text \<open>
  \<^verbatim>\<open>struct Octant\<close>. The scalar members form a record; the array \<^verbatim>\<open>children\<close> of
  \<^verbatim>\<open>NUM_OCTANTS\<close> nullable pointers is a list of optional subtrees, so that an octant
  owns its children as the C++ tree does. The \<^verbatim>\<open>parent\<close> pointer is the position of
  the octant in the tree.
\<close>

definition NUM_OCTANTS :: nat where
  "NUM_OCTANTS = 8"

record OctantFields =
  cullingBox :: BoundingBox
  worldBoundingBox :: BoundingBox
  center :: Vector3
  halfSize :: Vector3
  level :: int
  nodes :: "OctreeNodePtr list"
  numNodes :: nat

datatype Octant = Octant (members: OctantFields) (children: "Octant option list")

text \<open>
  \<^verbatim>\<open>class Octree\<close>: the update queue and the root octant (the pool allocator is
  replaced by value construction), together with the heap of the objects its pointers
  refer to.
\<close>

record Octree =
  updateQueue :: "OctreeNodePtr list"
  root :: Octant
  heap :: "OctreeNodePtr \<Rightarrow> OctreeNode"

section \<open>Octant::ChildIndex\<close>

definition ChildIndex :: "Octant \<Rightarrow> Vector3 \<Rightarrow> nat" where
  "ChildIndex octant position =
     (let ret = (if vec_x position < vec_x (center (members octant)) then 0 else 1);
          ret = ret + (if vec_y position < vec_y (center (members octant)) then 0 else 2);
          ret = ret + (if vec_z position < vec_z (center (members octant)) then 0 else 4)
      in ret)"

section \<open>Volume queries: FindNodes and CollectNodes\<close>

text \<open>The child octants that exist, in index order.\<close>

definition existing :: "'a option list \<Rightarrow> 'a list" where
  "existing cs = concat (map (\<lambda>c. case c of None \<Rightarrow> [] | Some ch \<Rightarrow> [ch]) cs)"

text \<open>
  All objects of an octant and of its descendants, in traversal order: the objects of
  the octant itself, then those of each existing child by index.
\<close>

fun subtree_nodes :: "Octant \<Rightarrow> OctreeNodePtr list" where
  "subtree_nodes (Octant d cs) =
     nodes d @ concat (map (\<lambda>c. case c of None \<Rightarrow> [] | Some ch \<Rightarrow> subtree_nodes ch) cs)"

text \<open>
  Modelled from the spec: the overload \<^verbatim>\<open>CollectNodes(dest, octant, nodeFlags)\<close> is
  declared in Octree.h ("Get all visible nodes matching flags from an octant
  recursively") and defined in Octree.cpp, which is not part of the sources. The spec:
  it "collects every enabled object matching nodeFlags from this octant and all
  descendants unconditionally". The constant \<^verbatim>\<open>NF_ENABLED\<close> of OctreeNode.h is not
  part of the sources either and is a parameter.
\<close>

fun CollectNodesFlags ::
  "32 word \<Rightarrow> (OctreeNodePtr \<Rightarrow> OctreeNode) \<Rightarrow> OctreeNodePtr list \<Rightarrow> Octant \<Rightarrow> 32 word
     \<Rightarrow> OctreeNodePtr list" where
  "CollectNodesFlags NF_ENABLED h dest (Octant d cs) nodeFlags =
     (let dest = fold (\<lambda>node dest.
                   let flags = Flags (h node)
                   in if flags AND NF_ENABLED \<noteq> 0 \<and> flags AND nodeFlags \<noteq> 0
                      then dest @ [node] else dest) (nodes d) dest
      in fold (\<lambda>child dest. case child of
                   None \<Rightarrow> dest
                 | Some c \<Rightarrow> CollectNodesFlags NF_ENABLED h dest c nodeFlags) cs dest)"

text \<open>
  The template \<^verbatim>\<open>CollectNodes(dest, octant, volume, nodeFlags)\<close> of Octree.h. The
  vector \<^verbatim>\<open>dest\<close> is passed in and returned; \<^verbatim>\<open>Push\<close> appends at the end.
\<close>

fun CollectNodes ::
  "32 word \<Rightarrow> (OctreeNodePtr \<Rightarrow> OctreeNode) \<Rightarrow> OctreeNodePtr list \<Rightarrow> Octant \<Rightarrow> Volume
     \<Rightarrow> 32 word \<Rightarrow> OctreeNodePtr list" where
  "CollectNodes NF_ENABLED h dest (Octant d cs) volume nodeFlags =
     (let res = IsInside volume (cullingBox d)
      in if res = OUTSIDE then dest
         else if res = INSIDE
         then CollectNodesFlags NF_ENABLED h dest (Octant d cs) nodeFlags
         else
           let dest = fold (\<lambda>node dest.
                         let flags = Flags (h node)
                         in if flags AND NF_ENABLED \<noteq> 0 \<and> flags AND nodeFlags \<noteq> 0
                               \<and> IsInsideFast volume (WorldBoundingBox (h node)) \<noteq> OUTSIDE
                            then dest @ [node] else dest) (nodes d) dest
           in fold (\<lambda>child dest. case child of
                        None \<Rightarrow> dest
                      | Some c \<Rightarrow> CollectNodes NF_ENABLED h dest c volume nodeFlags) cs dest)"

text \<open>\<^verbatim>\<open>Octree::FindNodes\<close>: clear the destination, then collect from the root.\<close>

definition FindNodes ::
  "32 word \<Rightarrow> Octree \<Rightarrow> OctreeNodePtr list \<Rightarrow> Volume \<Rightarrow> 32 word \<Rightarrow> OctreeNodePtr list" where
  "FindNodes NF_ENABLED tree dest volume nodeFlags =
     (let dest = [] in CollectNodes NF_ENABLED (heap tree) dest (root tree) volume nodeFlags)"

text \<open>
  The object test of both overloads (Octree.h line 152): the object has the enabled flag
  and one of the requested flags.
\<close>

definition enabled_match ::
  "32 word \<Rightarrow> (OctreeNodePtr \<Rightarrow> OctreeNode) \<Rightarrow> 32 word \<Rightarrow> OctreeNodePtr \<Rightarrow> bool" where
  "enabled_match NF_ENABLED h nodeFlags node =
     (Flags (h node) AND NF_ENABLED \<noteq> 0 \<and> Flags (h node) AND nodeFlags \<noteq> 0)"

section \<open>Mutation of the octree\<close>

text \<open>
  Octree.cpp, which defines every function of this section, is not part of the
  sources; Octree.h declares them. Each definition below is modelled from the spec, and
  says so. What the spec leaves open enters as a parameter, the policy: the decision of
  \<^verbatim>\<open>FitBoundingBox\<close>, the looseness of the culling box and the largest number of levels.
\<close>

record Policy =
  fits :: "OctantFields \<Rightarrow> BoundingBox \<Rightarrow> Vector3 \<Rightarrow> bool"
  looseness :: real
  maxLevels :: int

text \<open>
  Modelled from the spec: the centre, the size and the half size of a box
  (Math/BoundingBox.h is not part of the sources); \<^verbatim>\<open>center\<close> and \<^verbatim>\<open>halfSize\<close> of an
  octant are "derived from worldBoundingBox".
\<close>

definition Center :: "BoundingBox \<Rightarrow> Vector3" where
  "Center box =
     \<lparr>vec_x = (vec_x (box_min box) + vec_x (box_max box)) / 2,
      vec_y = (vec_y (box_min box) + vec_y (box_max box)) / 2,
      vec_z = (vec_z (box_min box) + vec_z (box_max box)) / 2\<rparr>"

definition Size :: "BoundingBox \<Rightarrow> Vector3" where
  "Size box =
     \<lparr>vec_x = vec_x (box_max box) - vec_x (box_min box),
      vec_y = vec_y (box_max box) - vec_y (box_min box),
      vec_z = vec_z (box_max box) - vec_z (box_min box)\<rparr>"

definition HalfSize :: "BoundingBox \<Rightarrow> Vector3" where
  "HalfSize box =
     \<lparr>vec_x = (vec_x (box_max box) - vec_x (box_min box)) / 2,
      vec_y = (vec_y (box_max box) - vec_y (box_min box)) / 2,
      vec_z = (vec_z (box_max box) - vec_z (box_min box)) / 2\<rparr>"

text \<open>
  Modelled from the spec: box-in-box containment, for the test of \<^verbatim>\<open>Update\<close> that an
  octant "tightly contains" an object's world box.
\<close>

definition box_contains :: "BoundingBox \<Rightarrow> BoundingBox \<Rightarrow> bool" where
  "box_contains outer inner \<longleftrightarrow>
     vec_x (box_min outer) \<le> vec_x (box_min inner)
   \<and> vec_x (box_max inner) \<le> vec_x (box_max outer)
   \<and> vec_y (box_min outer) \<le> vec_y (box_min inner)
   \<and> vec_y (box_max inner) \<le> vec_y (box_max outer)
   \<and> vec_z (box_min outer) \<le> vec_z (box_min inner)
   \<and> vec_z (box_max inner) \<le> vec_z (box_max outer)"

text \<open>
  Modelled from the spec: the constructor \<^verbatim>\<open>Octant()\<close>, declared in Octree.h. A new
  octant holds no object and has no child ("No children are created here").
\<close>

definition new_Octant :: Octant where
  "new_Octant =
     Octant \<lparr>cullingBox = \<lparr>box_min = \<lparr>vec_x = 0, vec_y = 0, vec_z = 0\<rparr>,
                            box_max = \<lparr>vec_x = 0, vec_y = 0, vec_z = 0\<rparr>\<rparr>,
             worldBoundingBox = \<lparr>box_min = \<lparr>vec_x = 0, vec_y = 0, vec_z = 0\<rparr>,
                                  box_max = \<lparr>vec_x = 0, vec_y = 0, vec_z = 0\<rparr>\<rparr>,
             center = \<lparr>vec_x = 0, vec_y = 0, vec_z = 0\<rparr>,
             halfSize = \<lparr>vec_x = 0, vec_y = 0, vec_z = 0\<rparr>, level = 0,
             nodes = [], numNodes = 0\<rparr>
       (replicate NUM_OCTANTS None)"

text \<open>
  Modelled from the spec: \<^verbatim>\<open>Octant::Initialize(parent, boundingBox, level)\<close>, declared in
  Octree.h: it "sets worldBoundingBox, derives center/halfSize, computes cullingBox as
  box expanded by a fixed looseness factor on every axis". The factor scales the half
  size. The parent is the octant's position in the tree.
\<close>

definition Initialize :: "Policy \<Rightarrow> Octant \<Rightarrow> BoundingBox \<Rightarrow> int \<Rightarrow> Octant" where
  "Initialize pol octant boundingBox level' =
     (let hs = HalfSize boundingBox
      in Octant ((members octant)
           \<lparr>worldBoundingBox := boundingBox,
            center := Center boundingBox,
            halfSize := hs,
            cullingBox :=
              \<lparr>box_min = \<lparr>vec_x = vec_x (box_min boundingBox) - looseness pol * vec_x hs,
                           vec_y = vec_y (box_min boundingBox) - looseness pol * vec_y hs,
                           vec_z = vec_z (box_min boundingBox) - looseness pol * vec_z hs\<rparr>,
               box_max = \<lparr>vec_x = vec_x (box_max boundingBox) + looseness pol * vec_x hs,
                           vec_y = vec_y (box_max boundingBox) + looseness pol * vec_y hs,
                           vec_z = vec_z (box_max boundingBox) + looseness pol * vec_z hs\<rparr>\<rparr>,
            level := level'\<rparr>)
         (children octant))"

text \<open>
  Modelled from the spec: \<^verbatim>\<open>Octant::FitBoundingBox(box, boxSize)\<close>, declared in Octree.h
  ("Test if a node should be inserted in this octant or if a smaller child octant should
  be created"). The spec: true when the object "must remain at this level", false when
  it is "eligible to descend"; "the decision compares boxSize against halfSize", with a
  ratio the spec leaves open. The decision is the policy's; it sees the bounds and the
  level of the octant, not the objects it holds.
\<close>

definition FitBoundingBox :: "Policy \<Rightarrow> Octant \<Rightarrow> BoundingBox \<Rightarrow> Vector3 \<Rightarrow> bool" where
  "FitBoundingBox pol octant box boxSize =
     fits pol ((members octant)\<lparr>nodes := [], numNodes := 0\<rparr>) box boxSize"

text \<open>
  The entry \<^verbatim>\<open>children[index]\<close>. The array has \<^verbatim>\<open>NUM_OCTANTS\<close> entries; a list that is
  shorter has no child there.
\<close>

definition child_at :: "Octant option list \<Rightarrow> nat \<Rightarrow> Octant option" where
  "child_at cs index = (if index < length cs then cs ! index else None)"

text \<open>
  Modelled from the spec: \<^verbatim>\<open>Octree::CreateChildOctant(octant, index)\<close>, declared in
  Octree.h: the new child of an octant for an index, whose bits select the half of the
  parent's box on each axis ("bit0=x half, bit1=y half, bit2=z half relative to
  center"), one level below the parent. The caller stores it in \<^verbatim>\<open>children[index]\<close>.
\<close>

definition CreateChildOctant :: "Policy \<Rightarrow> Octant \<Rightarrow> nat \<Rightarrow> Octant" where
  "CreateChildOctant pol octant index =
     (let newMin = box_min (worldBoundingBox (members octant));
          newMax = box_max (worldBoundingBox (members octant));
          oldCenter = center (members octant);
          (newMin, newMax) =
             (if bit index 0 then (newMin\<lparr>vec_x := vec_x oldCenter\<rparr>, newMax)
              else (newMin, newMax\<lparr>vec_x := vec_x oldCenter\<rparr>));
          (newMin, newMax) =
             (if bit index 1 then (newMin\<lparr>vec_y := vec_y oldCenter\<rparr>, newMax)
              else (newMin, newMax\<lparr>vec_y := vec_y oldCenter\<rparr>));
          (newMin, newMax) =
             (if bit index 2 then (newMin\<lparr>vec_z := vec_z oldCenter\<rparr>, newMax)
              else (newMin, newMax\<lparr>vec_z := vec_z oldCenter\<rparr>))
      in Initialize pol new_Octant \<lparr>box_min = newMin, box_max = newMax\<rparr>
           (level (members octant) - 1))"

text \<open>
  Modelled from the spec: \<^verbatim>\<open>Octree::AddNode(node, octant)\<close>, declared in Octree.h ("Add
  node to a specific octant"): the object joins the octant's \<^verbatim>\<open>nodes\<close> and the octant's
  count grows by one. The counts of the ancestors grow in \<open>insert_into\<close> and
  \<open>insert_from\<close>, the back-reference is written in \<open>InsertNode\<close>.
\<close>

definition AddNode :: "OctreeNodePtr \<Rightarrow> Octant \<Rightarrow> Octant" where
  "AddNode node octant =
     Octant ((members octant)\<lparr>nodes := nodes (members octant) @ [node],
                               numNodes := numNodes (members octant) + 1\<rparr>)
       (children octant)"

text \<open>
  Modelled from the spec: the three conditions under which the descent of \<^verbatim>\<open>InsertNode\<close>
  stops at an octant: "FitBoundingBox says the object must stay, or the maximum depth is
  reached, or the required child does not yet exist and creating it would exceed
  configured depth". Octree.h has no member for the number of levels but the root
  octant: the root carries the configured number as its level, a child is one level
  below its parent, and level 1 is the deepest.
\<close>

definition must_stay :: "Policy \<Rightarrow> Octant \<Rightarrow> BoundingBox \<Rightarrow> nat \<Rightarrow> bool" where
  "must_stay pol octant box index \<longleftrightarrow>
     FitBoundingBox pol octant box (Size box)
     \<or> level (members octant) \<le> 1
     \<or> (child_at (children octant) index = None \<and> level (members octant) - 1 < 1)"

text \<open>
  The descent ends: each step goes to an existing child or to a new octant one level
  lower, and stops at level 1. The measure counts the level of an octant and, for each
  existing child, one more than the child's measure.
\<close>

fun slack :: "Octant \<Rightarrow> nat" where
  "slack (Octant d cs) =
     nat (level d) + sum_list (map (\<lambda>c. case c of None \<Rightarrow> 0 | Some ch \<Rightarrow> Suc (slack ch)) cs)"

text \<open>
  Modelled from the spec: the descent of \<^verbatim>\<open>Octree::InsertNode\<close> from an octant: "at each
  level compute the candidate child via ChildIndex on the object's box center; if
  [one of the three conditions holds] stop and add the object to the current octant's
  nodes; otherwise lazily create the child (if absent) via CreateChildOctant and
  continue descending. On completion, increment numNodes for every octant on the path
  from insertion point to root". The result is the octant after the insertion and the
  path from it to the octant that took the object.
\<close>

function insert_into ::
  "Policy \<Rightarrow> BoundingBox \<Rightarrow> OctreeNodePtr \<Rightarrow> Octant \<Rightarrow> Octant \<times> OctantPtr" where
  "insert_into pol box node octant =
     (let index = ChildIndex octant (Center box)
      in if must_stay pol octant box index then (AddNode node octant, [])
         else
           let child = (case child_at (children octant) index of
                          None \<Rightarrow> CreateChildOctant pol octant index
                        | Some c \<Rightarrow> c);
               (child', path) = insert_into pol box node child
           in (Octant ((members octant)\<lparr>numNodes := numNodes (members octant) + 1\<rparr>)
                 ((children octant)[index := Some child']),
               index # path))"
  by pat_completeness auto

lemma slack_child: "Some c \<in> set cs \<Longrightarrow> slack c < slack (Octant d cs)"
  by (induction cs) auto

lemma slack_CreateChildOctant:
  "slack (CreateChildOctant pol octant index) = nat (level (members octant) - 1)"
  by (simp add: CreateChildOctant_def Initialize_def new_Octant_def Let_def split: prod.split)

lemma child_at_Some_mem: "child_at cs index = Some c \<Longrightarrow> Some c \<in> set cs"
  by (metis child_at_def nth_mem option.distinct(1))

termination insert_into
proof (relation "measure (\<lambda>(pol, box, node, octant). slack octant)", goal_cases)
  case 1
  then show ?case by simp
next
  case (2 pol box node octant index child)
  show ?case
  proof (cases "child_at (children octant) index")
    case None
    with 2 have "1 < level (members octant)" by (simp add: must_stay_def)
    with 2 None show ?thesis
      by (cases octant) (simp add: slack_CreateChildOctant)
  next
    case (Some c)
    then have "slack c < slack octant"
      using slack_child [of c "children octant" "members octant"]
      by (simp add: child_at_Some_mem)
    with 2 Some show ?thesis by simp
  qed
qed

declare insert_into.simps [simp del]

text \<open>The octant a path from an octant leads to, if every child on the path exists.\<close>

fun octant_at :: "Octant \<Rightarrow> OctantPtr \<Rightarrow> Octant option" where
  "octant_at octant [] = Some octant"
| "octant_at octant (index # path) =
     (case child_at (children octant) index of
        None \<Rightarrow> None
      | Some c \<Rightarrow> octant_at c path)"

text \<open>
  Modelled from the spec: \<^verbatim>\<open>InsertNode\<close> starts "at the octant currently recorded on the
  object (or the root if none)". The walk from the root to that octant counts the
  object in every octant it passes; a recorded octant that does not exist (a dangling
  pointer in C++) gives \<^verbatim>\<open>None\<close>.
\<close>

fun insert_from ::
  "Policy \<Rightarrow> BoundingBox \<Rightarrow> OctreeNodePtr \<Rightarrow> OctantPtr \<Rightarrow> Octant
     \<Rightarrow> (Octant \<times> OctantPtr) option" where
  "insert_from pol box node [] octant = Some (insert_into pol box node octant)"
| "insert_from pol box node (index # start) octant =
     (case child_at (children octant) index of
        None \<Rightarrow> None
      | Some c \<Rightarrow>
          (case insert_from pol box node start c of
             None \<Rightarrow> None
           | Some (child', path) \<Rightarrow>
               Some (Octant ((members octant)\<lparr>numNodes := numNodes (members octant) + 1\<rparr>)
                       ((children octant)[index := Some child']),
                     index # path)))"

text \<open>
  Modelled from the spec: \<^verbatim>\<open>Octree::InsertNode(node)\<close>, declared in Octree.h ("Insert a
  node into a suitably-sized octant"): the descent, then "record the resulting octant
  on the object".
\<close>

definition InsertNode :: "Policy \<Rightarrow> Octree \<Rightarrow> OctreeNodePtr \<Rightarrow> Octree" where
  "InsertNode pol tree node =
     (let start = (case node_octant (heap tree node) of None \<Rightarrow> [] | Some p \<Rightarrow> p)
      in case insert_from pol (WorldBoundingBox (heap tree node)) node start (root tree) of
           None \<Rightarrow> tree
         | Some (root', path) \<Rightarrow>
             tree\<lparr>root := root',
                  heap := (heap tree)(node := (heap tree node)\<lparr>node_octant := Some path\<rparr>)\<rparr>)"

text \<open>
  Modelled from the spec: an octant to prune, one that "becomes empty (numNodes == 0
  and no live children)".
\<close>

definition is_empty_octant :: "Octant \<Rightarrow> bool" where
  "is_empty_octant octant \<longleftrightarrow>
     numNodes (members octant) = 0 \<and> list_all (\<lambda>c. c = None) (children octant)"

text \<open>
  Modelled from the spec: \<^verbatim>\<open>Octree::RemoveNode(node, octant)\<close>, declared in Octree.h
  ("Remove node from an octant"): "erase it from that octant's nodes, decrement
  numNodes along the path to root, then walk upward pruning any octant that becomes
  empty (numNodes == 0 and no live children) except the root", which clears "the
  parent's corresponding child slot". The root is no octant's child and is never
  pruned. The count is a \<^verbatim>\<open>size_t\<close>; it is decremented only where it counts the
  removed object, so it does not wrap.
\<close>

fun remove_from :: "OctreeNodePtr \<Rightarrow> OctantPtr \<Rightarrow> Octant \<Rightarrow> Octant option" where
  "remove_from node [] octant =
     Some (Octant ((members octant)\<lparr>nodes := remove1 node (nodes (members octant)),
                                     numNodes := numNodes (members octant) - 1\<rparr>)
             (children octant))"
| "remove_from node (index # path) octant =
     (case child_at (children octant) index of
        None \<Rightarrow> None
      | Some c \<Rightarrow>
          (case remove_from node path c of
             None \<Rightarrow> None
           | Some child' \<Rightarrow>
               Some (Octant ((members octant)\<lparr>numNodes := numNodes (members octant) - 1\<rparr>)
                       ((children octant)
                          [index := (if is_empty_octant child' then None else Some child')]))))"

text \<open>
  Modelled from the spec: \<^verbatim>\<open>Octree::RemoveNode(node)\<close>, declared in Octree.h: "look up
  the object's current octant", remove the object from it, and leave the object with no
  octant; "removing an object not currently tracked is a no-op".
\<close>

definition RemoveNode :: "Octree \<Rightarrow> OctreeNodePtr \<Rightarrow> Octree" where
  "RemoveNode tree node =
     (case node_octant (heap tree node) of
        None \<Rightarrow> tree
      | Some p \<Rightarrow>
          (case remove_from node p (root tree) of
             None \<Rightarrow> tree
           | Some root' \<Rightarrow>
               tree\<lparr>root := root',
                    heap := (heap tree)(node := (heap tree node)\<lparr>node_octant := None\<rparr>)\<rparr>))"

text \<open>
  Modelled from the spec: \<^verbatim>\<open>Octree::QueueUpdate(node)\<close>, declared in Octree.h: "mark an
  object as needing reinsertion; queuing the same object twice before the next drain is
  a no-op". Being in the queue is the mark.
\<close>

definition QueueUpdate :: "Octree \<Rightarrow> OctreeNodePtr \<Rightarrow> Octree" where
  "QueueUpdate tree node =
     (if node \<in> set (updateQueue tree) then tree
      else tree\<lparr>updateQueue := updateQueue tree @ [node]\<rparr>)"

text \<open>
  Modelled from the spec: \<^verbatim>\<open>Octree::CancelUpdate(node)\<close>, declared in Octree.h: "unmark
  an object as needing reinsertion; canceling an object not queued is a no-op".
\<close>

definition CancelUpdate :: "Octree \<Rightarrow> OctreeNodePtr \<Rightarrow> Octree" where
  "CancelUpdate tree node = tree\<lparr>updateQueue := removeAll node (updateQueue tree)\<rparr>"

text \<open>
  Modelled from the spec: the test of \<^verbatim>\<open>Update\<close> on a queued object: "its current octant
  no longer tightly contains its (possibly moved/resized) world box, or a smaller octant
  now fits it". The tight box of an octant is its \<^verbatim>\<open>worldBoundingBox\<close>; a smaller octant
  fits when the descent would not stop at the current one. An object with no octant
  has nothing to reinsert.
\<close>

definition needs_reinsertion :: "Policy \<Rightarrow> Octree \<Rightarrow> OctreeNodePtr \<Rightarrow> bool" where
  "needs_reinsertion pol tree node =
     (let box = WorldBoundingBox (heap tree node)
      in case node_octant (heap tree node) of
           None \<Rightarrow> False
         | Some p \<Rightarrow>
             (case octant_at (root tree) p of
                None \<Rightarrow> False
              | Some octant \<Rightarrow>
                  \<not> box_contains (worldBoundingBox (members octant)) box
                  \<or> \<not> must_stay pol octant box (ChildIndex octant (Center box))))"

text \<open>
  Modelled from the spec: \<^verbatim>\<open>Octree::Update()\<close>, declared in Octree.h ("Process the queue
  of nodes to be reinserted"): it "drains the queue once; for each object, if [the test
  holds], perform RemoveNode followed by InsertNode starting the search from the root".
\<close>

definition Update :: "Policy \<Rightarrow> Octree \<Rightarrow> Octree" where
  "Update pol tree =
     (fold (\<lambda>node tree.
              if needs_reinsertion pol tree node
              then InsertNode pol (RemoveNode tree node) node
              else tree) (updateQueue tree) tree)
       \<lparr>updateQueue := []\<rparr>"

text \<open>
  Modelled from the spec: "depth and bucket-style limits are clamped rather than
  rejected". The least number of levels is 1, the root alone; the largest is the
  policy's.
\<close>

definition Clamp :: "int \<Rightarrow> int \<Rightarrow> int \<Rightarrow> int" where
  "Clamp v lo hi = (if v < lo then lo else if hi < v then hi else v)"

text \<open>
  Modelled from the spec: \<^verbatim>\<open>Octree::Resize(boundingBox, numLevels)\<close>, declared in
  Octree.h: "detach all currently tracked objects, destroy the entire non-root octant
  hierarchy (re-homing any surviving object references to none), reinitialize the root
  with the new bounds/depth, and reinsert every previously tracked object". The tracked
  objects are those of the root and its descendants, which the overload
  \<^verbatim>\<open>CollectNodes(dest, octant)\<close> of Octree.h collects ("Get all nodes from an octant
  recursively").
\<close>

definition Resize :: "Policy \<Rightarrow> Octree \<Rightarrow> BoundingBox \<Rightarrow> int \<Rightarrow> Octree" where
  "Resize pol tree boundingBox numLevels =
     (let tracked = subtree_nodes (root tree);
          detached = fold (\<lambda>node h. h(node := (h node)\<lparr>node_octant := None\<rparr>))
                       tracked (heap tree);
          root' = Initialize pol new_Octant boundingBox (Clamp numLevels 1 (maxLevels pol))
      in fold (\<lambda>node tree. InsertNode pol tree node) tracked
           (tree\<lparr>root := root', heap := detached\<rparr>))"


section \<open>Ray queries\<close>

text \<open>
  \<^verbatim>\<open>struct RaycastResult\<close> of Octree.h; \<^verbatim>\<open>position\<close>, \<^verbatim>\<open>normal\<close> and \<^verbatim>\<open>node\<close> carry a
  prefix, \<^verbatim>\<open>extraData\<close> is an address. A ray (Math/Ray.h) is an origin and a direction.
\<close>

record Ray =
  origin :: Vector3
  direction :: Vector3

record RaycastResult =
  hit_position :: Vector3
  hit_normal :: Vector3
  distance :: real
  hit_node :: OctreeNodePtr
  extraData :: nat

text \<open>
  The two tests the ray queries take from outside the octree (spec, section 6): the
  "ray-vs-box intersection yielding a hit distance or no-hit", and the "object-specific
  ray test (external capability) producing zero or more RaycastResult". Both are
  parameters. A maximal distance of \<^verbatim>\<open>None\<close> is the default, unbounded.
\<close>

record RayTests =
  HitDistance :: "Ray \<Rightarrow> BoundingBox \<Rightarrow> real option"
  OnRaycast :: "OctreeNodePtr \<Rightarrow> OctreeNode \<Rightarrow> Ray \<Rightarrow> real option \<Rightarrow> RaycastResult list"

text \<open>Modelled from the spec: a hit distance "within maxDistance".\<close>

definition within_distance :: "real \<Rightarrow> real option \<Rightarrow> bool" where
  "within_distance d maxDistance =
     (case maxDistance of None \<Rightarrow> True | Some m \<Rightarrow> d \<le> m)"

text \<open>
  Modelled from the spec: the overload \<^verbatim>\<open>CollectNodes(dest, octant, ray, nodeFlags,
  maxDistance)\<close> for raycast results, declared in Octree.h ("Get all visible nodes
  matching flags along a ray"): "traverse octants whose cullingBox intersects ray within
  maxDistance; for each qualifying enabled, flag-matching object, delegate to an
  object-specific ray test".
\<close>

fun CollectNodesRay ::
  "RayTests \<Rightarrow> 32 word \<Rightarrow> (OctreeNodePtr \<Rightarrow> OctreeNode) \<Rightarrow> RaycastResult list \<Rightarrow> Octant
     \<Rightarrow> Ray \<Rightarrow> 32 word \<Rightarrow> real option \<Rightarrow> RaycastResult list" where
  "CollectNodesRay tests NF_ENABLED h dest (Octant d cs) ray nodeFlags maxDistance =
     (case HitDistance tests ray (cullingBox d) of
        None \<Rightarrow> dest
      | Some octantDist \<Rightarrow>
          if \<not> within_distance octantDist maxDistance then dest
          else
            let dest = fold (\<lambda>node dest.
                          let flags = Flags (h node)
                          in if flags AND NF_ENABLED \<noteq> 0 \<and> flags AND nodeFlags \<noteq> 0
                             then dest @ OnRaycast tests node (h node) ray maxDistance
                             else dest) (nodes d) dest
            in fold (\<lambda>child dest. case child of
                         None \<Rightarrow> dest
                       | Some c \<Rightarrow>
                           CollectNodesRay tests NF_ENABLED h dest c ray nodeFlags maxDistance)
                 cs dest)"

text \<open>
  Modelled from the spec: \<^verbatim>\<open>Octree::Raycast\<close>, declared in Octree.h ("Query for nodes
  with a raycast and return all results"): all hits of the traversal, in its order.
\<close>

definition Raycast ::
  "RayTests \<Rightarrow> 32 word \<Rightarrow> Octree \<Rightarrow> Ray \<Rightarrow> 32 word \<Rightarrow> real option \<Rightarrow> RaycastResult list" where
  "Raycast tests NF_ENABLED tree ray nodeFlags maxDistance =
     CollectNodesRay tests NF_ENABLED (heap tree) [] (root tree) ray nodeFlags maxDistance"

text \<open>
  Modelled from the spec: the choice \<^verbatim>\<open>RaycastSingle\<close> makes between a hit and the best
  hit so far: "ties resolved by traversal/object order, first found wins", so a later
  hit replaces the best one only when it is strictly closer.
\<close>

definition closer :: "RaycastResult \<Rightarrow> RaycastResult option \<Rightarrow> RaycastResult option" where
  "closer res best =
     (case best of
        None \<Rightarrow> Some res
      | Some b \<Rightarrow> if distance res < distance b then Some res else Some b)"

text \<open>
  Modelled from the spec: \<^verbatim>\<open>Octree::RaycastSingle\<close>, declared in Octree.h ("Query for
  nodes with a raycast and return the closest result"): "the minimum-distance result
  across the whole traversal", a single result or none.
\<close>

definition RaycastSingle ::
  "RayTests \<Rightarrow> 32 word \<Rightarrow> Octree \<Rightarrow> Ray \<Rightarrow> 32 word \<Rightarrow> real option \<Rightarrow> RaycastResult option" where
  "RaycastSingle tests NF_ENABLED tree ray nodeFlags maxDistance =
     fold closer
       (CollectNodesRay tests NF_ENABLED (heap tree) [] (root tree) ray nodeFlags maxDistance)
       None"

section \<open>Reachable states and their invariants\<close>

text \<open>The count a child slot contributes to its parent: an absent child contributes 0.\<close>

definition child_numNodes :: "Octant option \<Rightarrow> nat" where
  "child_numNodes c = (case c of None \<Rightarrow> 0 | Some ch \<Rightarrow> numNodes (members ch))"

text \<open>All octants of a subtree, the subtree's root first.\<close>

fun octants :: "Octant \<Rightarrow> Octant list" where
  "octants (Octant d cs) =
     Octant d cs # concat (map (\<lambda>c. case c of None \<Rightarrow> [] | Some ch \<Rightarrow> octants ch) cs)"

text \<open>
  A well-formed subtree: every octant has \<^verbatim>\<open>NUM_OCTANTS\<close> child slots and the count
  of Octree.h line 63 ("Number of nodes in this octant and the child octants
  combined"); every child is one level below its parent, which is above level 1, and
  counts at least one object.
\<close>

fun well_formed :: "Octant \<Rightarrow> bool" where
  "well_formed (Octant d cs) \<longleftrightarrow>
     length cs = NUM_OCTANTS
     \<and> numNodes d = length (nodes d) + sum_list (map child_numNodes cs)
     \<and> list_all (\<lambda>c. case c of
                       None \<Rightarrow> True
                     | Some ch \<Rightarrow> level (members ch) = level d - 1 \<and> 1 < level d
                                 \<and> 0 < numNodes (members ch) \<and> well_formed ch) cs"

text \<open>The octant at the end of a path from the root holds the object.\<close>

definition holds_node :: "Octant \<Rightarrow> OctantPtr \<Rightarrow> OctreeNodePtr \<Rightarrow> bool" where
  "holds_node octant path node =
     (case octant_at octant path of
        None \<Rightarrow> False
      | Some oct \<Rightarrow> node \<in> set (nodes (members oct)))"

text \<open>
  The invariant of the octree and the objects: the tree is well formed, no object is
  held twice, an object without an octant is not in the tree, and an object with an
  octant is held by that octant.
\<close>

definition tree_invariant :: "Octree \<Rightarrow> bool" where
  "tree_invariant tree \<longleftrightarrow>
     well_formed (root tree)
     \<and> distinct (subtree_nodes (root tree))
     \<and> distinct (updateQueue tree)
     \<and> (\<forall>node. node_octant (heap tree node) = None
                \<longrightarrow> node \<notin> set (subtree_nodes (root tree)))
     \<and> (\<forall>node path. node_octant (heap tree node) = Some path
                \<longrightarrow> holds_node (root tree) path node)"

text \<open>
  The states of an octree: it is created over objects that are in no octree and sized
  by \<^verbatim>\<open>Resize\<close>; then objects are inserted (\<^verbatim>\<open>InsertNode\<close> is private: an object is
  inserted when it is in no octant), removed, queued, cancelled, the queue is drained,
  the octree is resized, and in between the world moves an object or changes its flags.
\<close>

inductive reachable :: "Policy \<Rightarrow> Octree \<Rightarrow> bool" for pol :: Policy where
  created:
    "(\<And>node. node_octant (h node) = None) \<Longrightarrow>
     reachable pol (Resize pol \<lparr>updateQueue = [], root = new_Octant, heap = h\<rparr>
                      boundingBox numLevels)"
| inserted:
    "reachable pol tree \<Longrightarrow> node_octant (heap tree node) = None \<Longrightarrow>
     reachable pol (InsertNode pol tree node)"
| removed:
    "reachable pol tree \<Longrightarrow> reachable pol (RemoveNode tree node)"
| queued:
    "reachable pol tree \<Longrightarrow> reachable pol (QueueUpdate tree node)"
| cancelled:
    "reachable pol tree \<Longrightarrow> reachable pol (CancelUpdate tree node)"
| updated:
    "reachable pol tree \<Longrightarrow> reachable pol (Update pol tree)"
| resized:
    "reachable pol tree \<Longrightarrow> reachable pol (Resize pol tree boundingBox numLevels)"
| moved:
    "reachable pol tree \<Longrightarrow>
     reachable pol
       (tree\<lparr>heap := (heap tree)
                 (node := (heap tree node)\<lparr>WorldBoundingBox := box, Flags := flags\<rparr>)\<rparr>)"





section \<open>Test data\<close>

definition vec3 :: "real \<Rightarrow> real \<Rightarrow> real \<Rightarrow> Vector3" where
  "vec3 a b c = \<lparr>vec_x = a, vec_y = b, vec_z = c\<rparr>"

definition box3 :: "Vector3 \<Rightarrow> Vector3 \<Rightarrow> BoundingBox" where
  "box3 lo hi = \<lparr>box_min = lo, box_max = hi\<rparr>"

text \<open>An octant over the cube from 0 to 100 with the given objects and children.\<close>

definition sample_fields :: "OctreeNodePtr list \<Rightarrow> nat \<Rightarrow> OctantFields" where
  "sample_fields ns k =
     \<lparr>cullingBox = box3 (vec3 (-50) (-50) (-50)) (vec3 150 150 150),
      worldBoundingBox = box3 (vec3 0 0 0) (vec3 100 100 100),
      center = vec3 50 50 50, halfSize = vec3 50 50 50, level = 4,
      nodes = ns, numNodes = k\<rparr>"

text \<open>
  Objects at address \<open>n\<close> occupy the unit cube at \<open>(10 n, 10 n, 10 n)\<close>; object 2 is
  disabled, the others carry flags 1 (enabled) and 2.
\<close>

definition sample_heap :: "OctreeNodePtr \<Rightarrow> OctreeNode" where
  "sample_heap n =
     \<lparr>WorldBoundingBox = box3 (vec3 (10 * real n) (10 * real n) (10 * real n))
                              (vec3 (10 * real n + 1) (10 * real n + 1) (10 * real n + 1)),
      Flags = (if n = 2 then 2 else 3), node_octant = None\<rparr>"

text \<open>The half space \<open>x \<le> 60\<close> as a query volume.\<close>

definition sample_volume :: Volume where
  "sample_volume =
     \<lparr>IsInside = (\<lambda>b. if vec_x (box_max b) \<le> 60 then INSIDE
                       else if 60 < vec_x (box_min b) then OUTSIDE else INTERSECT),
      IsInsideFast = (\<lambda>b. if 60 < vec_x (box_min b) then OUTSIDE else INSIDE)\<rparr>"

text \<open>
  A root that the volume cuts, holding objects 1, 2 and 7, with a child inside the
  volume (objects 3 and 4) and a child outside it (object 9).
\<close>

definition sample_child :: "real \<Rightarrow> real \<Rightarrow> OctreeNodePtr list \<Rightarrow> Octant" where
  "sample_child lo hi ns =
     Octant \<lparr>cullingBox = box3 (vec3 lo lo lo) (vec3 hi hi hi),
             worldBoundingBox = box3 (vec3 lo lo lo) (vec3 hi hi hi),
             center = vec3 ((lo + hi) / 2) ((lo + hi) / 2) ((lo + hi) / 2),
             halfSize = vec3 ((hi - lo) / 2) ((hi - lo) / 2) ((hi - lo) / 2), level = 3,
             nodes = ns, numNodes = length ns\<rparr>
       [None, None, None, None, None, None, None, None]"

definition sample_root :: Octant where
  "sample_root =
     Octant (sample_fields [1, 2, 7] 6)
       [Some (sample_child 0 50 [3, 4]), None, None, None,
        None, None, None, Some (sample_child 70 100 [9])]"

definition sample_tree :: Octree where
  "sample_tree = \<lparr>updateQueue = [], root = sample_root, heap = sample_heap\<rparr>"

text \<open>
  A policy: an object stays in an octant when it is at least as large as the octant's
  half size on some axis. Objects at address \<open>n\<close> are cubes of side 30 at
  \<open>(10 n, 10 n, 10 n)\<close>, in no octant. The octree is created over the cube from 0 to
  100 with three levels; then objects 1 and 6 are inserted.
\<close>

definition sample_policy :: Policy where
  "sample_policy =
     \<lparr>fits = (\<lambda>d box boxSize. vec_x (halfSize d) \<le> vec_x boxSize
                     \<or> vec_y (halfSize d) \<le> vec_y boxSize
                     \<or> vec_z (halfSize d) \<le> vec_z boxSize),
      looseness = 1, maxLevels = 8\<rparr>"

definition sample_objects :: "OctreeNodePtr \<Rightarrow> OctreeNode" where
  "sample_objects n =
     \<lparr>WorldBoundingBox = box3 (vec3 (10 * real n) (10 * real n) (10 * real n))
                              (vec3 (10 * real n + 30) (10 * real n + 30) (10 * real n + 30)),
      Flags = (if n = 2 then 2 else 3), node_octant = None\<rparr>"

definition tree0 :: Octree where
  "tree0 = Resize sample_policy \<lparr>updateQueue = [], root = new_Octant, heap = sample_objects\<rparr>
             (box3 (vec3 0 0 0) (vec3 100 100 100)) 3"

definition tree1 :: Octree where
  "tree1 = InsertNode sample_policy tree0 1"

definition tree2 :: Octree where
  "tree2 = InsertNode sample_policy tree1 6"

text \<open>
  Object 2, which lacks flag 1, joins the tree. A volume that cuts every box and puts
  no box outside, and ray tests that hit every box at distance 0 and every object once,
  object 1 at distance 7 and the others at distance 2.
\<close>

definition tree3 :: Octree where
  "tree3 = InsertNode sample_policy tree2 2"

definition enclosing_volume :: Volume where
  "enclosing_volume = \<lparr>IsInside = (\<lambda>b. INTERSECT), IsInsideFast = (\<lambda>b. INSIDE)\<rparr>"

definition sample_ray :: Ray where
  "sample_ray = \<lparr>origin = vec3 0 0 0, direction = vec3 1 1 1\<rparr>"

definition sample_tests :: RayTests where
  "sample_tests =
     \<lparr>HitDistance = (\<lambda>ray box. Some 0),
      OnRaycast = (\<lambda>node obj ray maxDistance.
         [\<lparr>hit_position = box_min (WorldBoundingBox obj), hit_normal = vec3 0 0 1,
           distance = (if node = 1 then 7 else 2), hit_node = node, extraData = 0\<rparr>])\<rparr>"





section \<open>Properties of ChildIndex\<close>

lemma ChildIndex_sum:
  "ChildIndex octant position =
     (if vec_x position < vec_x (center (members octant)) then 0 else 1)
     + (if vec_y position < vec_y (center (members octant)) then 0 else 2)
     + (if vec_z position < vec_z (center (members octant)) then 0 else 4)"
  by (simp add: ChildIndex_def Let_def)

text \<open>
  Claim C7. \<^verbatim>\<open>ChildIndex\<close> returns a value below 8 whose bit 0 is set exactly when the
  x coordinate of the position is not below that of the centre, bit 1 likewise for y
  and bit 2 for z.
\<close>

theorem ChildIndex_three_bit_code:
  "ChildIndex octant position < 8
   \<and> (bit (ChildIndex octant position) 0
        \<longleftrightarrow> vec_x (center (members octant)) \<le> vec_x position)
   \<and> (bit (ChildIndex octant position) 1
        \<longleftrightarrow> vec_y (center (members octant)) \<le> vec_y position)
   \<and> (bit (ChildIndex octant position) 2
        \<longleftrightarrow> vec_z (center (members octant)) \<le> vec_z position)"
  by (simp add: ChildIndex_sum bit_iff_odd not_less [symmetric])

theorem ChildIndex_three_bit_code_witness:
  "ChildIndex (Octant (sample_fields [] 0) []) (vec3 60 10 50) = 5
   \<and> bit (5 :: nat) 0 \<and> \<not> bit (5 :: nat) 1 \<and> bit (5 :: nat) 2"
  using ChildIndex_three_bit_code
    [of "Octant (sample_fields [] 0) []" "vec3 60 10 50"]
  by (simp add: ChildIndex_sum sample_fields_def vec3_def bit_iff_odd)

text \<open>
  Claim C10. A coordinate equal to the centre's coordinate falls in the positive half
  of its axis: the bit of that axis is set, whatever the other coordinates are, and the
  centre itself has child index 7.
\<close>

theorem ChildIndex_boundary_positive:
  "bit (ChildIndex octant (position\<lparr>vec_x := vec_x (center (members octant))\<rparr>)) 0
   \<and> bit (ChildIndex octant (position\<lparr>vec_y := vec_y (center (members octant))\<rparr>)) 1
   \<and> bit (ChildIndex octant (position\<lparr>vec_z := vec_z (center (members octant))\<rparr>)) 2
   \<and> ChildIndex octant (center (members octant)) = 7"
  by (simp add: ChildIndex_sum bit_iff_odd)

theorem ChildIndex_boundary_positive_witness:
  "ChildIndex (Octant (sample_fields [] 0) []) (vec3 50 50 50) = 7
   \<and> ChildIndex (Octant (sample_fields [] 0) []) (vec3 50 0 0) = 1"
  using ChildIndex_boundary_positive [of "Octant (sample_fields [] 0) []" "vec3 0 0 0"]
  by (simp add: ChildIndex_sum sample_fields_def vec3_def)

section \<open>Properties of the volume query\<close>

lemma fold_Push:
  "fold (\<lambda>node dest. if P node then dest @ [node] else dest) ns dest = dest @ filter P ns"
  by (induction ns arbitrary: dest) simp_all

lemma fold_children_cong:
  assumes "\<And>c dest. Some c \<in> set cs \<Longrightarrow> f dest c = dest @ g c"
  shows "fold (\<lambda>child dest. case child of None \<Rightarrow> dest | Some c \<Rightarrow> f dest c) cs dest
     = dest @ concat (map (\<lambda>child. case child of None \<Rightarrow> [] | Some c \<Rightarrow> g c) cs)"
  using assms by (induction cs arbitrary: dest) (simp_all split: option.split)

lemma concat_existing:
  "concat (map (\<lambda>child. case child of None \<Rightarrow> [] | Some c \<Rightarrow> g c) cs)
     = concat (map g (existing cs))"
  by (induction cs) (simp_all add: existing_def split: option.split)

lemma filter_concat_children:
  "filter P (concat (map (\<lambda>child. case child of None \<Rightarrow> [] | Some c \<Rightarrow> g c) cs))
   = concat (map (\<lambda>child. case child of None \<Rightarrow> [] | Some c \<Rightarrow> filter P (g c)) cs)"
  by (induction cs) (simp_all split: option.split)

lemma CollectNodesFlags_eq:
  "CollectNodesFlags NF_ENABLED h dest octant nodeFlags
     = dest @ filter (enabled_match NF_ENABLED h nodeFlags) (subtree_nodes octant)"
proof (induction NF_ENABLED h dest octant nodeFlags rule: CollectNodesFlags.induct)
  case (1 NF_ENABLED h dest d cs nodeFlags)
  have step: "CollectNodesFlags NF_ENABLED h dest' c nodeFlags
        = dest' @ filter (enabled_match NF_ENABLED h nodeFlags) (subtree_nodes c)"
    if "Some c \<in> set cs" for c dest'
    by (rule "1.IH" [OF refl that refl])
  show ?case
    by (simp add: Let_def enabled_match_def [symmetric] fold_Push
        fold_children_cong [OF step] filter_concat_children)
qed

lemma CollectNodes_intersect_nodes:
  "fold (\<lambda>node dest.
           let flags = Flags (h node)
           in if flags AND NF_ENABLED \<noteq> 0 \<and> flags AND nodeFlags \<noteq> 0
                 \<and> IsInsideFast volume (WorldBoundingBox (h node)) \<noteq> OUTSIDE
              then dest @ [node] else dest) ns dest
     = dest @ filter (\<lambda>node. enabled_match NF_ENABLED h nodeFlags node
                  \<and> IsInsideFast volume (WorldBoundingBox (h node)) \<noteq> OUTSIDE) ns"
  using fold_Push [where P = "\<lambda>node. enabled_match NF_ENABLED h nodeFlags node
                  \<and> IsInsideFast volume (WorldBoundingBox (h node)) \<noteq> OUTSIDE"]
  by (simp add: Let_def enabled_match_def)

lemma CollectNodes_append:
  "CollectNodes NF_ENABLED h dest octant volume nodeFlags
     = dest @ CollectNodes NF_ENABLED h [] octant volume nodeFlags"
proof (induction NF_ENABLED h dest octant volume nodeFlags rule: CollectNodes.induct)
  case (1 NF_ENABLED h dest d cs volume nodeFlags)
  show ?case
  proof (cases "IsInside volume (cullingBox d)")
    case OUTSIDE
    then show ?thesis by simp
  next
    case INSIDE
    then show ?thesis by (simp add: CollectNodesFlags_eq)
  next
    case INTERSECT
    have step: "CollectNodes NF_ENABLED h dest' c volume nodeFlags
          = dest' @ CollectNodes NF_ENABLED h [] c volume nodeFlags"
      if "Some c \<in> set cs" for c dest'
      by (rule "1.IH" [OF refl _ _ refl that refl]) (simp_all add: INTERSECT)
    show ?thesis
      using INTERSECT
      by (simp add: CollectNodes_intersect_nodes fold_children_cong [OF step])
  qed
qed

lemma CollectNodes_children:
  "fold (\<lambda>child dest. case child of
            None \<Rightarrow> dest
          | Some c \<Rightarrow> CollectNodes NF_ENABLED h dest c volume nodeFlags) cs dest
     = dest @ concat (map (\<lambda>c. CollectNodes NF_ENABLED h [] c volume nodeFlags) (existing cs))"
  using fold_children_cong
    [where f = "\<lambda>dest c. CollectNodes NF_ENABLED h dest c volume nodeFlags"
       and g = "\<lambda>c. CollectNodes NF_ENABLED h [] c volume nodeFlags",
     OF CollectNodes_append]
  by (simp add: concat_existing)

text \<open>
  Claim C2. The traversal follows the classification of the octant's culling box.
  OUTSIDE: the destination is returned as it was. INSIDE: the enabled objects matching
  \<^verbatim>\<open>nodeFlags\<close> of the octant and of all its descendants are appended, with no test
  against the volume. INTERSECT: the objects of the octant that are enabled, match
  \<^verbatim>\<open>nodeFlags\<close> and whose world box \<^verbatim>\<open>IsInsideFast\<close> does not put OUTSIDE are
  appended, followed by what the traversal collects from each existing child.
\<close>

theorem CollectNodes_three_way:
  "CollectNodes NF_ENABLED h dest octant volume nodeFlags =
     (case IsInside volume (cullingBox (members octant)) of
        OUTSIDE \<Rightarrow> dest
      | INSIDE \<Rightarrow>
          dest @ filter (enabled_match NF_ENABLED h nodeFlags) (subtree_nodes octant)
      | INTERSECT \<Rightarrow>
          dest
          @ filter (\<lambda>node. enabled_match NF_ENABLED h nodeFlags node
                      \<and> IsInsideFast volume (WorldBoundingBox (h node)) \<noteq> OUTSIDE)
              (nodes (members octant))
          @ concat (map (\<lambda>c. CollectNodes NF_ENABLED h [] c volume nodeFlags)
                      (existing (children octant))))"
proof (cases octant)
  case (Octant d cs)
  show ?thesis
  proof (cases "IsInside volume (cullingBox d)")
    case OUTSIDE
    then show ?thesis using Octant by simp
  next
    case INSIDE
    then show ?thesis using Octant by (simp add: CollectNodesFlags_eq)
  next
    case INTERSECT
    then show ?thesis
      using Octant by (simp add: CollectNodes_intersect_nodes CollectNodes_children)
  qed
qed

theorem CollectNodes_three_way_witness:
  "IsInside sample_volume (cullingBox (members sample_root)) = INTERSECT
   \<and> CollectNodes 1 sample_heap [5] sample_root sample_volume 2 = [5, 1, 3, 4]
   \<and> CollectNodes 1 sample_heap [5] (sample_child 0 50 [3, 4]) sample_volume 2 = [5, 3, 4]
   \<and> CollectNodes 1 sample_heap [5] (sample_child 70 100 [9]) sample_volume 2 = [5]"
  using CollectNodes_three_way [of 1 sample_heap "[5]" sample_root sample_volume 2]
  by (simp add: sample_root_def sample_child_def sample_fields_def sample_volume_def
      sample_heap_def box3_def vec3_def)

text \<open>
  Claim C9. \<^verbatim>\<open>FindNodes\<close> clears the destination before collecting: its result does
  not depend on what the destination held, and is what the traversal of the root
  appends to an empty vector.
\<close>

theorem FindNodes_replaces_dest:
  "FindNodes NF_ENABLED tree dest volume nodeFlags
     = FindNodes NF_ENABLED tree [] volume nodeFlags
   \<and> FindNodes NF_ENABLED tree dest volume nodeFlags
     = CollectNodes NF_ENABLED (heap tree) [] (root tree) volume nodeFlags"
  by (simp add: FindNodes_def)

theorem FindNodes_replaces_dest_witness:
  "FindNodes 1 sample_tree [8, 8, 1] sample_volume 2 = [1, 3, 4]
   \<and> FindNodes 1 sample_tree [] sample_volume 2 = [1, 3, 4]"
  using FindNodes_replaces_dest [of 1 sample_tree "[8, 8, 1]" sample_volume 2]
  by (simp add: FindNodes_def sample_tree_def sample_root_def sample_child_def
      sample_fields_def sample_volume_def sample_heap_def box3_def vec3_def)

section \<open>Insertion and removal keep the tree well formed\<close>

lemma ChildIndex_less: "ChildIndex octant position < NUM_OCTANTS"
  by (simp add: ChildIndex_sum NUM_OCTANTS_def)

lemma sum_child_numNodes_update:
  "index < length cs \<Longrightarrow>
   sum_list (map child_numNodes (cs[index := v])) + child_numNodes (cs ! index)
     = sum_list (map child_numNodes cs) + child_numNodes v"
  by (induction cs arbitrary: index) (auto split: nat.splits)

lemma list_all_update: "list_all P cs \<Longrightarrow> P v \<Longrightarrow> list_all P (cs[index := v])"
  by (induction cs arbitrary: index) (auto split: nat.splits)

lemma well_formed_new_child:
  "well_formed (CreateChildOctant pol octant index)
   \<and> numNodes (members (CreateChildOctant pol octant index)) = 0
   \<and> level (members (CreateChildOctant pol octant index)) = level (members octant) - 1
   \<and> subtree_nodes (CreateChildOctant pol octant index) = []
   \<and> children (CreateChildOctant pol octant index) = replicate NUM_OCTANTS None
   \<and> nodes (members (CreateChildOctant pol octant index)) = []"
  by (simp add: CreateChildOctant_def Initialize_def new_Octant_def Let_def NUM_OCTANTS_def
      child_numNodes_def list_all_iff split: prod.split)

lemma well_formed_child:
  assumes "well_formed (Octant d cs)" "child_at cs index = Some c"
  shows "well_formed c" "level (members c) = level d - 1" "1 < level d"
    "0 < numNodes (members c)"
proof -
  have "Some c \<in> set cs" using assms(2) by (rule child_at_Some_mem)
  moreover have "\<forall>x\<in>set cs. case x of None \<Rightarrow> True
      | Some ch \<Rightarrow> level (members ch) = level d - 1 \<and> 1 < level d
                                 \<and> 0 < numNodes (members ch) \<and> well_formed ch"
    using assms(1) by (simp add: list_all_iff)
  ultimately have "case Some c of None \<Rightarrow> True
      | Some ch \<Rightarrow> level (members ch) = level d - 1 \<and> 1 < level d
                                 \<and> 0 < numNodes (members ch) \<and> well_formed ch"
    by blast
  then show "well_formed c" "level (members c) = level d - 1" "1 < level d"
    "0 < numNodes (members c)" by simp_all
qed

lemma insert_into_unfold:
  "insert_into pol box node octant =
     (if must_stay pol octant box (ChildIndex octant (Center box))
      then (AddNode node octant, [])
      else (case insert_into pol box node
                   (case child_at (children octant) (ChildIndex octant (Center box)) of
                      None \<Rightarrow> CreateChildOctant pol octant (ChildIndex octant (Center box))
                    | Some c \<Rightarrow> c) of
              (child', path) \<Rightarrow>
                (Octant ((members octant)\<lparr>numNodes := numNodes (members octant) + 1\<rparr>)
                   ((children octant)[ChildIndex octant (Center box) := Some child']),
                 ChildIndex octant (Center box) # path)))"
  by (subst insert_into.simps) (simp add: Let_def)


lemma insert_into_cases [consumes 1, case_names stay descend]:
  assumes wf: "well_formed octant"
    and stay: "\<And>octant. well_formed octant
        \<Longrightarrow> must_stay pol octant box (ChildIndex octant (Center box))
        \<Longrightarrow> P octant (AddNode node octant) []"
    and descend: "\<And>d cs index child child' path.
        well_formed (Octant d cs)
        \<Longrightarrow> index = ChildIndex (Octant d cs) (Center box)
        \<Longrightarrow> index < length cs
        \<Longrightarrow> \<not> must_stay pol (Octant d cs) box index
        \<Longrightarrow> cs ! index = Some child \<and> 0 < numNodes (members child)
            \<or> cs ! index = None \<and> child = CreateChildOctant pol (Octant d cs) index
        \<Longrightarrow> level (members child) = level d - 1
        \<Longrightarrow> well_formed child
        \<Longrightarrow> insert_into pol box node child = (child', path)
        \<Longrightarrow> P child child' path
        \<Longrightarrow> P (Octant d cs)
              (Octant (d\<lparr>numNodes := numNodes d + 1\<rparr>) (cs[index := Some child']))
              (index # path)"
  shows "P octant (fst (insert_into pol box node octant))
           (snd (insert_into pol box node octant))"
  using wf
proof (induction "slack octant" arbitrary: octant rule: less_induct)
  case less
  note prems = less.prems
  obtain d cs where oct: "octant = Octant d cs" by (cases octant)
  define index where "index = ChildIndex octant (Center box)"
  show ?case
  proof (cases "must_stay pol octant box index")
    case True
    then show ?thesis
      using stay [OF prems] by (simp add: insert_into_unfold index_def)
  next
    case False
    define child where "child = (case child_at (children octant) index of
                          None \<Rightarrow> CreateChildOctant pol octant index
                        | Some c \<Rightarrow> c)"
    obtain child' path where rec: "insert_into pol box node child = (child', path)"
      by (cases "insert_into pol box node child")
    have len: "index < length cs"
      using prems ChildIndex_less [of octant "Center box"]
      by (simp add: oct index_def)
    have alt: "cs ! index = Some child \<and> 0 < numNodes (members child)
       \<or> cs ! index = None \<and> child = CreateChildOctant pol (Octant d cs) index"
    proof (cases "child_at cs index")
      case None
      then show ?thesis using len by (simp add: child_def oct child_at_def)
    next
      case (Some c)
      then show ?thesis
        using len well_formed_child(4) [OF prems [unfolded oct] Some]
        by (simp add: child_def oct child_at_def)
    qed
    have wfc: "well_formed child \<and> level (members child) = level d - 1"
    proof (cases "child_at cs index")
      case None
      then show ?thesis using well_formed_new_child by (simp add: child_def oct)
    next
      case (Some c)
      then show ?thesis
        using well_formed_child(1,2) [OF prems [unfolded oct] Some]
        by (simp add: child_def oct)
    qed
    have "1 < level d"
      using False by (simp add: must_stay_def oct)
    have "slack child < slack octant"
    proof (cases "child_at cs index")
      case None
      then show ?thesis
        using \<open>1 < level d\<close> by (simp add: child_def oct slack_CreateChildOctant)
    next
      case (Some c)
      then show ?thesis
        using slack_child [OF child_at_Some_mem [OF Some], of d] by (simp add: child_def oct)
    qed
    then have IH: "P child (fst (insert_into pol box node child))
                (snd (insert_into pol box node child))"
      using less.hyps wfc by simp
    have "P (Octant d cs)
              (Octant (d\<lparr>numNodes := numNodes d + 1\<rparr>) (cs[index := Some child']))
              (index # path)"
      using descend [OF prems [unfolded oct] _ len _ alt _ _ rec] IH False wfc rec
      by (simp add: index_def oct)
    moreover have "insert_into pol box node octant =
        (Octant (d\<lparr>numNodes := numNodes d + 1\<rparr>) (cs[index := Some child']), index # path)"
      using False rec unfolding index_def child_def
      by (subst insert_into_unfold) (simp add: oct)
    ultimately show ?thesis by (simp add: oct)
  qed
qed


lemma mset_concat_update:
  "index < length cs \<Longrightarrow>
   mset (concat (map g (cs[index := v]))) + mset (g (cs ! index))
     = mset (concat (map g cs)) + mset (g v)"
  by (induction cs arbitrary: index) (auto split: nat.splits)

lemma insert_into_well_formed:
  assumes "well_formed octant"
  shows "well_formed (fst (insert_into pol box node octant))
    \<and> numNodes (members (fst (insert_into pol box node octant)))
          = numNodes (members octant) + 1
    \<and> level (members (fst (insert_into pol box node octant))) = level (members octant)"
  using assms
proof (induction rule: insert_into_cases [where pol = pol and box = box and node = node])
  case (stay octant)
  then show ?case by (cases octant) (simp add: AddNode_def)
next
  case (descend d cs index child child' path)
  have "child_numNodes (cs ! index) + 1 = child_numNodes (Some child')"
    using descend.hyps(5) descend.IH well_formed_new_child [of pol "Octant d cs" index]
    by (auto simp: child_numNodes_def)
  then have "sum_list (map child_numNodes (cs[index := Some child']))
      = sum_list (map child_numNodes cs) + 1"
    using sum_child_numNodes_update [OF descend.hyps(3), of "Some child'"] by simp
  moreover have "1 < level d"
    using descend.hyps(4) by (simp add: must_stay_def)
  ultimately show ?case
    using descend.hyps(1,6) descend.IH
    by (simp add: list_all_update)
qed

lemma insert_into_mset:
  assumes "well_formed octant"
  shows "mset (subtree_nodes (fst (insert_into pol box node octant)))
     = add_mset node (mset (subtree_nodes octant))"
  using assms
proof (induction rule: insert_into_cases [where pol = pol and box = box and node = node])
  case (stay octant)
  then show ?case by (cases octant) (simp add: AddNode_def)
next
  case (descend d cs index child child' path)
  let ?g = "\<lambda>c. case c of None \<Rightarrow> [] | Some ch \<Rightarrow> subtree_nodes ch"
  have "mset (?g (Some child')) = add_mset node (mset (?g (cs ! index)))"
    using descend.hyps(5) descend.IH well_formed_new_child [of pol "Octant d cs" index]
    by auto
  then show ?case
    using mset_concat_update [OF descend.hyps(3), of ?g "Some child'"] by simp
qed

lemma child_at_update:
  "child_at (cs[index := v]) j = (if j = index \<and> index < length cs then v else child_at cs j)"
  by (simp add: child_at_def)

lemma insert_into_holds:
  assumes "well_formed octant"
  shows "holds_node (fst (insert_into pol box node octant))
           (snd (insert_into pol box node octant)) node"
  using assms
proof (induction rule: insert_into_cases [where pol = pol and box = box and node = node])
  case (stay octant)
  then show ?case by (simp add: holds_node_def AddNode_def)
next
  case (descend d cs index child child' path)
  then show ?case by (simp add: holds_node_def child_at_update)
qed

lemma insert_into_keeps:
  assumes "well_formed octant"
  shows "holds_node octant q m \<longrightarrow> holds_node (fst (insert_into pol box node octant)) q m"
  using assms
proof (induction arbitrary: q
    rule: insert_into_cases [where pol = pol and box = box and node = node])
  case (stay octant)
  then show ?case by (cases q) (simp_all add: holds_node_def AddNode_def)
next
  case (descend d cs index child child' path)
  show ?case
  proof (cases q)
    case Nil
    then show ?thesis by (simp add: holds_node_def)
  next
    case (Cons j q')
    show ?thesis
    proof (cases "j = index")
      case False
      then show ?thesis using Cons by (simp add: holds_node_def child_at_update)
    next
      case True
      from descend.hyps(5) show ?thesis
      proof
        assume "cs ! index = Some child \<and> 0 < numNodes (members child)"
        then show ?thesis
          using Cons True descend.hyps(3) descend.IH [of q']
          by (simp add: holds_node_def child_at_update child_at_def)
      next
        assume "cs ! index = None \<and> child = CreateChildOctant pol (Octant d cs) index"
        then show ?thesis
          using Cons True descend.hyps(3)
          by (simp add: holds_node_def child_at_def)
      qed
    qed
  qed
qed

lemma insert_into_round_trip:
  assumes "well_formed octant"
  shows "node \<notin> set (subtree_nodes octant) \<longrightarrow>
     remove_from node (snd (insert_into pol box node octant))
       (fst (insert_into pol box node octant)) = Some octant"
  using assms
proof (induction rule: insert_into_cases [where pol = pol and box = box and node = node])
  case (stay octant)
  then show ?case
    by (cases octant) (simp add: AddNode_def remove1_append)
next
  case (descend d cs index child child' path)
  show ?case
  proof
    assume notin: "node \<notin> set (subtree_nodes (Octant d cs))"
    from descend.hyps(5) show "remove_from node (index # path)
        (Octant (d\<lparr>numNodes := numNodes d + 1\<rparr>) (cs[index := Some child'])) = Some (Octant d cs)"
    proof
      assume ex: "cs ! index = Some child \<and> 0 < numNodes (members child)"
      then have "Some child \<in> set cs"
        using descend.hyps(3) by (metis nth_mem)
      then have "node \<notin> set (subtree_nodes child)"
        using notin by force
      then have "remove_from node path child' = Some child"
        using descend.IH by simp
      moreover have "\<not> is_empty_octant child"
        using ex by (simp add: is_empty_octant_def)
      moreover have "cs[index := Some child] = cs"
        using ex by (metis list_update_id)
      ultimately show ?thesis
        using descend.hyps(3) by (simp add: child_at_update)
    next
      assume fresh: "cs ! index = None \<and> child = CreateChildOctant pol (Octant d cs) index"
      then have "node \<notin> set (subtree_nodes child)"
        using well_formed_new_child [of pol "Octant d cs" index] by simp
      then have "remove_from node path child' = Some child"
        using descend.IH by simp
      moreover have "is_empty_octant child"
        using fresh well_formed_new_child [of pol "Octant d cs" index]
        by (simp add: is_empty_octant_def list_all_iff)
      moreover have "cs[index := None] = cs"
        using fresh by (metis list_update_id)
      ultimately show ?thesis
        using descend.hyps(3) by (simp add: child_at_update)
    qed
  qed
qed

lemma well_formed_count_zero:
  assumes "well_formed octant" "numNodes (members octant) = 0"
  shows "is_empty_octant octant" "subtree_nodes octant = []"
    "\<not> holds_node octant q m"
proof -
  obtain d cs where oct: "octant = Octant d cs" by (cases octant)
  have none: "c = None" if "c \<in> set cs" for c
  proof (cases c)
    case (Some ch)
    then have "0 < numNodes (members ch)"
      using assms(1) that by (auto simp: oct list_all_iff)
    moreover have "child_numNodes c \<le> sum_list (map child_numNodes cs)"
      using that by (simp add: member_le_sum_list)
    ultimately show ?thesis
      using assms Some by (simp add: oct child_numNodes_def del: sum_list_eq_0_iff)
  qed simp
  have nodes: "nodes d = []"
    using assms by (simp add: oct)
  show "is_empty_octant octant"
    using assms(2) none by (simp add: is_empty_octant_def oct list_all_iff)
  show "subtree_nodes octant = []"
    using none nodes by (auto simp: oct split: option.splits)
  show "\<not> holds_node octant q m"
  proof (cases q)
    case Nil
    then show ?thesis using nodes by (simp add: holds_node_def oct)
  next
    case (Cons j q')
    have "child_at cs j = None"
      using none by (metis child_at_Some_mem not_None_eq)
    then show ?thesis using Cons by (simp add: holds_node_def oct)
  qed
qed

lemma holds_node_count_pos:
  "well_formed octant \<Longrightarrow> holds_node octant path node \<Longrightarrow> 0 < numNodes (members octant)"
  using well_formed_count_zero(3) by blast

lemma holds_node_subtree:
  "holds_node octant path node \<Longrightarrow> node \<in> set (subtree_nodes octant)"
proof (induction path arbitrary: octant)
  case Nil
  then show ?case by (cases octant) (simp add: holds_node_def)
next
  case (Cons index path)
  obtain d cs where oct: "octant = Octant d cs" by (cases octant)
  from Cons.prems obtain c where c: "child_at cs index = Some c" "holds_node c path node"
    by (auto simp: holds_node_def oct split: option.splits)
  then have "node \<in> set (subtree_nodes c)" using Cons.IH by simp
  moreover have "Some c \<in> set cs" using c(1) by (rule child_at_Some_mem)
  ultimately show ?case by (force simp: oct)
qed

lemma subtree_holds_node:
  "node \<in> set (subtree_nodes octant) \<Longrightarrow> \<exists>path. holds_node octant path node"
proof (induction octant rule: subtree_nodes.induct)
  case (1 d cs)
  show ?case
  proof (cases "node \<in> set (nodes d)")
    case True
    then have "holds_node (Octant d cs) [] node" by (simp add: holds_node_def)
    then show ?thesis ..
  next
    case False
    with "1.prems" obtain c ch where c: "c \<in> set cs" "c = Some ch" "node \<in> set (subtree_nodes ch)"
      by (auto split: option.splits)
    then obtain path where "holds_node ch path node" using "1.IH" by blast
    moreover obtain index where "index < length cs" "cs ! index = Some ch"
      using c by (metis in_set_conv_nth)
    ultimately have "holds_node (Octant d cs) (index # path) node"
      by (simp add: holds_node_def child_at_def)
    then show ?thesis ..
  qed
qed

lemma remove_from_correct:
  assumes "well_formed octant" "holds_node octant path node"
  shows "\<exists>octant'. remove_from node path octant = Some octant'
     \<and> well_formed octant'
     \<and> numNodes (members octant') + 1 = numNodes (members octant)
     \<and> level (members octant') = level (members octant)
     \<and> add_mset node (mset (subtree_nodes octant')) = mset (subtree_nodes octant)
     \<and> (\<forall>q m. m \<noteq> node \<longrightarrow> holds_node octant q m \<longrightarrow> holds_node octant' q m)"
  using assms
proof (induction path arbitrary: octant)
  case Nil
  obtain d cs where oct: "octant = Octant d cs" by (cases octant)
  have mem: "node \<in> set (nodes d)"
    using Nil.prems(2) by (simp add: holds_node_def oct)
  then have len: "length (remove1 node (nodes d)) + 1 = length (nodes d)"
    by (simp add: length_remove1) (metis Suc_pred length_pos_if_in_set)
  have keep: "holds_node (Octant (d\<lparr>nodes := remove1 node (nodes d),
      numNodes := numNodes d - 1\<rparr>) cs) q m"
    if "m \<noteq> node" "holds_node (Octant d cs) q m" for q m
    using that by (cases q) (simp_all add: holds_node_def)
  have "numNodes d - 1 = length (remove1 node (nodes d)) + sum_list (map child_numNodes cs)"
    "numNodes d - 1 + 1 = numNodes d"
    using Nil.prems(1) len by (simp_all add: oct)
  then show ?case
    using Nil.prems(1) mem keep by (simp add: oct)
next
  case (Cons index path)
  obtain d cs where oct: "octant = Octant d cs" by (cases octant)
  from Cons.prems(2) obtain c where c: "child_at cs index = Some c" "holds_node c path node"
    by (auto simp: holds_node_def oct split: option.splits)
  have len: "index < length cs" and nth: "cs ! index = Some c"
    using c(1) by (auto simp: child_at_def split: if_splits)
  note wfc = well_formed_child [OF Cons.prems(1) [unfolded oct] c(1)]
  from Cons.IH [OF wfc(1) c(2)] obtain c' where c':
    "remove_from node path c = Some c'" "well_formed c'"
    "numNodes (members c') + 1 = numNodes (members c)"
    "level (members c') = level (members c)"
    "add_mset node (mset (subtree_nodes c')) = mset (subtree_nodes c)"
    "\<And>q m. m \<noteq> node \<Longrightarrow> holds_node c q m \<Longrightarrow> holds_node c' q m"
    by blast
  define v where "v = (if is_empty_octant c' then None else Some c')"
  define octant' where "octant' = Octant (d\<lparr>numNodes := numNodes d - 1\<rparr>) (cs[index := v])"
  have rm: "remove_from node (index # path) octant = Some octant'"
    using c(1) c'(1) by (simp add: oct octant'_def v_def)
  have empty_iff: "is_empty_octant c' \<longleftrightarrow> numNodes (members c') = 0"
    using well_formed_count_zero(1) [OF c'(2)] by (auto simp: is_empty_octant_def)
  have vcount: "child_numNodes v + 1 = child_numNodes (cs ! index)"
    using c'(3) empty_iff by (simp add: v_def nth child_numNodes_def)
  have sum: "sum_list (map child_numNodes (cs[index := v])) + 1
      = sum_list (map child_numNodes cs)"
    using sum_child_numNodes_update [OF len, of v] vcount by simp
  have vwf: "case v of None \<Rightarrow> True
     | Some ch \<Rightarrow> level (members ch) = level d - 1 \<and> 1 < level d
                 \<and> 0 < numNodes (members ch) \<and> well_formed ch"
    using c'(2,4) wfc(2,3) empty_iff by (simp add: v_def)
  have wf': "well_formed octant'"
    using Cons.prems(1) sum vwf by (simp add: oct octant'_def list_all_update)
  have cnt: "numNodes (members octant') + 1 = numNodes (members octant)"
    using Cons.prems(1) sum by (simp add: oct octant'_def)
  let ?g = "\<lambda>c. case c of None \<Rightarrow> [] | Some ch \<Rightarrow> subtree_nodes ch"
  have "mset (?g v) = mset (subtree_nodes c')"
    using well_formed_count_zero(2) [OF c'(2)] empty_iff by (simp add: v_def)
  then have "mset (?g (cs ! index)) = add_mset node (mset (?g v))"
    using c'(5) by (simp add: nth)
  then have "mset (concat (map ?g (cs[index := v]))) + add_mset node (mset (?g v))
      = mset (concat (map ?g cs)) + mset (?g v)"
    using mset_concat_update [OF len, of ?g v] by simp
  then have "add_mset node (mset (concat (map ?g (cs[index := v]))))
      = mset (concat (map ?g cs))"
    by simp
  then have ms: "add_mset node (mset (subtree_nodes octant')) = mset (subtree_nodes octant)"
    by (simp add: oct octant'_def)
  have keep: "holds_node octant' q m" if "m \<noteq> node" "holds_node octant q m" for q m
  proof (cases q)
    case Nil
    then show ?thesis using that by (simp add: holds_node_def oct octant'_def)
  next
    case (Cons j q')
    show ?thesis
    proof (cases "j = index")
      case False
      then show ?thesis
        using that Cons by (simp add: holds_node_def oct octant'_def child_at_update)
    next
      case True
      then have "holds_node c q' m"
        using that Cons c(1) by (simp add: holds_node_def oct)
      then have h: "holds_node c' q' m" using c'(6) that(1) by simp
      then have "\<not> is_empty_octant c'"
        using well_formed_count_zero(3) [OF c'(2)] empty_iff by blast
      then show ?thesis
        using h Cons True len
        by (simp add: holds_node_def oct octant'_def child_at_update v_def)
    qed
  qed
  show ?case
    using rm wf' cnt ms keep by (simp add: oct octant'_def)
qed

section \<open>The invariant holds in every reachable state\<close>

lemma mset_add_distinct:
  assumes "mset xs = add_mset n (mset ys)"
  shows "set xs = insert n (set ys)" "distinct xs \<longleftrightarrow> distinct ys \<and> n \<notin> set ys"
proof -
  have eq: "mset xs = mset (n # ys)" using assms by simp
  show "set xs = insert n (set ys)" using mset_eq_setD [OF eq] by simp
  show "distinct xs \<longleftrightarrow> distinct ys \<and> n \<notin> set ys"
    using mset_eq_imp_distinct_iff [OF eq] by auto
qed

lemma InsertNode_untracked:
  "node_octant (heap tree node) = None \<Longrightarrow>
   InsertNode pol tree node =
     tree\<lparr>root := fst (insert_into pol (WorldBoundingBox (heap tree node)) node (root tree)),
          heap := (heap tree)(node := (heap tree node)
            \<lparr>node_octant :=
               Some (snd (insert_into pol (WorldBoundingBox (heap tree node)) node (root tree)))\<rparr>)\<rparr>"
  by (simp add: InsertNode_def split: prod.split)

lemma InsertNode_invariant:
  assumes inv: "tree_invariant tree" and un: "node_octant (heap tree node) = None"
  shows "tree_invariant (InsertNode pol tree node)"
proof -
  let ?box = "WorldBoundingBox (heap tree node)"
  let ?r = "insert_into pol ?box node (root tree)"
  let ?t = "InsertNode pol tree node"
  note t = InsertNode_untracked [OF un, of pol]
  have wf: "well_formed (root tree)" using inv by (simp add: tree_invariant_def)
  have notin: "node \<notin> set (subtree_nodes (root tree))"
    using inv un by (simp add: tree_invariant_def)
  note ms = mset_add_distinct [OF insert_into_mset [OF wf, of pol ?box node]]
  have a: "well_formed (root ?t)"
    using insert_into_well_formed [OF wf, of pol ?box node] by (simp add: t)
  have b: "distinct (subtree_nodes (root ?t))"
    using ms(2) notin inv by (simp add: tree_invariant_def t)
  have c: "distinct (updateQueue ?t)"
    using inv by (simp add: tree_invariant_def t)
  have d: "m \<notin> set (subtree_nodes (root ?t))" if "node_octant (heap ?t m) = None" for m
  proof -
    have "m \<noteq> node" using that by (auto simp: t)
    then have "node_octant (heap tree m) = None" using that by (simp add: t)
    then have "m \<notin> set (subtree_nodes (root tree))"
      using inv by (simp add: tree_invariant_def)
    then show ?thesis using \<open>m \<noteq> node\<close> ms(1) by (simp add: t)
  qed
  have e: "holds_node (root ?t) q m" if "node_octant (heap ?t m) = Some q" for m q
  proof (cases "m = node")
    case True
    then show ?thesis
      using that insert_into_holds [OF wf, of pol ?box node] by (simp add: t)
  next
    case False
    then have "node_octant (heap tree m) = Some q" using that by (simp add: t)
    then have "holds_node (root tree) q m"
      using inv by (simp add: tree_invariant_def)
    then show ?thesis
      using insert_into_keeps [OF wf, of q m pol ?box node] by (simp add: t)
  qed
  show ?thesis
    unfolding tree_invariant_def using a b c d e by blast
qed

lemma RemoveNode_tracked:
  assumes inv: "tree_invariant tree" and tr: "node_octant (heap tree node) = Some p"
  shows "\<exists>root'. remove_from node p (root tree) = Some root'
     \<and> RemoveNode tree node =
         tree\<lparr>root := root',
              heap := (heap tree)(node := (heap tree node)\<lparr>node_octant := None\<rparr>)\<rparr>
     \<and> well_formed root'
     \<and> numNodes (members root') + 1 = numNodes (members (root tree))
     \<and> level (members root') = level (members (root tree))
     \<and> add_mset node (mset (subtree_nodes root')) = mset (subtree_nodes (root tree))
     \<and> (\<forall>q m. m \<noteq> node \<longrightarrow> holds_node (root tree) q m \<longrightarrow> holds_node root' q m)"
proof -
  have wf: "well_formed (root tree)" using inv by (simp add: tree_invariant_def)
  have "holds_node (root tree) p node"
    using inv tr by (simp add: tree_invariant_def)
  from remove_from_correct [OF wf this] show ?thesis
    using tr by (auto simp: RemoveNode_def)
qed

lemma RemoveNode_invariant:
  assumes inv: "tree_invariant tree"
  shows "tree_invariant (RemoveNode tree node)
    \<and> node_octant (heap (RemoveNode tree node) node) = None"
proof (cases "node_octant (heap tree node)")
  case None
  then show ?thesis using inv by (simp add: RemoveNode_def)
next
  case (Some p)
  let ?t = "RemoveNode tree node"
  from RemoveNode_tracked [OF inv Some] obtain root' where r:
    "RemoveNode tree node =
         tree\<lparr>root := root',
              heap := (heap tree)(node := (heap tree node)\<lparr>node_octant := None\<rparr>)\<rparr>"
    "well_formed root'"
    "add_mset node (mset (subtree_nodes root')) = mset (subtree_nodes (root tree))"
    "\<And>q m. m \<noteq> node \<Longrightarrow> holds_node (root tree) q m \<Longrightarrow> holds_node root' q m"
    by blast
  note ms = mset_add_distinct [OF r(3) [symmetric]]
  have dist: "distinct (subtree_nodes (root tree))"
    using inv by (simp add: tree_invariant_def)
  have a: "well_formed (root ?t)" using r(2) by (simp add: r(1))
  have b: "distinct (subtree_nodes (root ?t))" using ms(2) dist by (simp add: r(1))
  have c: "distinct (updateQueue ?t)" using inv by (simp add: tree_invariant_def r(1))
  have d: "m \<notin> set (subtree_nodes (root ?t))" if "node_octant (heap ?t m) = None" for m
  proof (cases "m = node")
    case True
    then show ?thesis using ms(2) dist by (simp add: r(1))
  next
    case False
    then have "node_octant (heap tree m) = None" using that by (simp add: r(1))
    then have "m \<notin> set (subtree_nodes (root tree))"
      using inv by (simp add: tree_invariant_def)
    then show ?thesis using ms(1) by (simp add: r(1))
  qed
  have e: "holds_node (root ?t) q m" if "node_octant (heap ?t m) = Some q" for m q
  proof -
    have "m \<noteq> node" using that by (auto simp: r(1))
    then have "node_octant (heap tree m) = Some q" using that by (simp add: r(1))
    then have "holds_node (root tree) q m"
      using inv by (simp add: tree_invariant_def)
    then show ?thesis using r(4) \<open>m \<noteq> node\<close> by (simp add: r(1))
  qed
  have "node_octant (heap ?t node) = None" by (simp add: r(1))
  moreover have "tree_invariant ?t"
    unfolding tree_invariant_def using a b c d e by blast
  ultimately show ?thesis by simp
qed

lemma well_formed_new_root:
  "well_formed (Initialize pol new_Octant boundingBox numLevels)
   \<and> subtree_nodes (Initialize pol new_Octant boundingBox numLevels) = []
   \<and> level (members (Initialize pol new_Octant boundingBox numLevels)) = numLevels"
  by (simp add: Initialize_def new_Octant_def Let_def NUM_OCTANTS_def child_numNodes_def
      list_all_iff)

lemma fold_InsertNode_invariant:
  assumes "tree_invariant tree" "distinct ns"
    "\<And>n. n \<in> set ns \<Longrightarrow> node_octant (heap tree n) = None"
  shows "tree_invariant (fold (\<lambda>node tree. InsertNode pol tree node) ns tree)"
  using assms
proof (induction ns arbitrary: tree)
  case Nil
  then show ?case by simp
next
  case (Cons n ns)
  have un: "node_octant (heap tree n) = None" using Cons.prems(3) by simp
  have "node_octant (heap (InsertNode pol tree n) m) = None" if "m \<in> set ns" for m
    using that Cons.prems(2,3) by (auto simp: InsertNode_untracked [OF un])
  then show ?case
    using Cons.IH [OF InsertNode_invariant [OF Cons.prems(1) un]] Cons.prems(2) by simp
qed

lemma fold_detach:
  "node_octant (fold (\<lambda>node h. h(node := (h node)\<lparr>node_octant := None\<rparr>)) ns h m)
     = (if m \<in> set ns then None else node_octant (h m))"
  by (induction ns arbitrary: h) auto

lemma Resize_invariant:
  assumes inv: "tree_invariant tree"
  shows "tree_invariant (Resize pol tree boundingBox numLevels)"
proof -
  let ?ns = "subtree_nodes (root tree)"
  let ?h = "fold (\<lambda>node h. h(node := (h node)\<lparr>node_octant := None\<rparr>)) ?ns (heap tree)"
  let ?t = "tree\<lparr>root := Initialize pol new_Octant boundingBox (Clamp numLevels 1 (maxLevels pol)),
                heap := ?h\<rparr>"
  have none: "node_octant (?h m) = None" for m
  proof (cases "node_octant (heap tree m)")
    case None
    then show ?thesis by (simp add: fold_detach)
  next
    case (Some q)
    then have "holds_node (root tree) q m"
      using inv by (simp add: tree_invariant_def)
    then show ?thesis using holds_node_subtree by (simp add: fold_detach)
  qed
  have "tree_invariant ?t"
    using inv none well_formed_new_root by (simp add: tree_invariant_def)
  moreover have "distinct ?ns" using inv by (simp add: tree_invariant_def)
  ultimately have "tree_invariant (fold (\<lambda>node tree. InsertNode pol tree node) ?ns ?t)"
    using none by (intro fold_InsertNode_invariant) simp_all
  then show ?thesis by (simp add: Resize_def Let_def)
qed

lemma Update_fold_invariant:
  assumes "tree_invariant tree"
  shows "tree_invariant (fold (\<lambda>node tree.
              if needs_reinsertion pol tree node
              then InsertNode pol (RemoveNode tree node) node
              else tree) ns tree)"
  using assms
proof (induction ns arbitrary: tree)
  case Nil
  then show ?case by simp
next
  case (Cons n ns)
  have "tree_invariant (InsertNode pol (RemoveNode tree n) n)"
    using RemoveNode_invariant [OF Cons.prems, of n] by (simp add: InsertNode_invariant)
  then show ?case using Cons by simp
qed

lemma tree_invariant_queue:
  "tree_invariant tree \<Longrightarrow> distinct q \<Longrightarrow> tree_invariant (tree\<lparr>updateQueue := q\<rparr>)"
  by (simp add: tree_invariant_def)

lemma Update_invariant:
  assumes "tree_invariant tree"
  shows "tree_invariant (Update pol tree)"
  unfolding Update_def
  by (rule tree_invariant_queue [OF Update_fold_invariant [OF assms]]) simp

lemma reachable_invariant: "reachable pol tree \<Longrightarrow> tree_invariant tree"
proof (induction rule: reachable.induct)
  case (created h boundingBox numLevels)
  have "tree_invariant \<lparr>updateQueue = [], root = new_Octant, heap = h\<rparr>"
    using created by (simp add: tree_invariant_def new_Octant_def NUM_OCTANTS_def
        child_numNodes_def list_all_iff)
  then show ?case by (rule Resize_invariant)
next
  case (inserted tree node)
  then show ?case by (simp add: InsertNode_invariant)
next
  case (removed tree node)
  then show ?case by (simp add: RemoveNode_invariant)
next
  case (queued tree node)
  then show ?case
    by (auto simp: QueueUpdate_def tree_invariant_def intro!: tree_invariant_queue)
next
  case (cancelled tree node)
  then show ?case
    unfolding CancelUpdate_def
    by (intro tree_invariant_queue) (simp_all add: tree_invariant_def distinct_removeAll)
next
  case (updated tree)
  then show ?case by (simp add: Update_invariant)
next
  case (resized tree boundingBox numLevels)
  then show ?case by (simp add: Resize_invariant)
next
  case (moved tree node box flags)
  then show ?case by (simp add: tree_invariant_def)
qed

section \<open>Reachable sample states\<close>

lemma sample_objects_untracked: "node_octant (sample_objects n) = None"
  by (simp add: sample_objects_def)

lemma reachable_tree0: "reachable sample_policy tree0"
  unfolding tree0_def by (rule reachable.created) (rule sample_objects_untracked)

lemma reachable_tree1: "reachable sample_policy tree1"
  unfolding tree1_def by (rule reachable.inserted [OF reachable_tree0]) code_simp

lemma reachable_tree2: "reachable sample_policy tree2"
  unfolding tree2_def by (rule reachable.inserted [OF reachable_tree1]) code_simp

lemma reachable_tree3: "reachable sample_policy tree3"
  unfolding tree3_def by (rule reachable.inserted [OF reachable_tree2]) code_simp

section \<open>The count invariant\<close>

lemma well_formed_octants:
  "well_formed octant \<Longrightarrow> oct \<in> set (octants octant) \<Longrightarrow>
   well_formed oct \<and> level (members oct) \<le> level (members octant)"
proof (induction octant rule: octants.induct)
  case (1 d cs)
  show ?case
  proof (cases "oct = Octant d cs")
    case True
    then show ?thesis using "1.prems" by simp
  next
    case False
    with "1.prems"(2) obtain c ch where c: "c \<in> set cs" "c = Some ch" "oct \<in> set (octants ch)"
      by (auto split: option.splits)
    obtain index where "index < length cs" "cs ! index = Some ch"
      using c by (metis in_set_conv_nth)
    then have "child_at cs index = Some ch" by (simp add: child_at_def)
    note wfc = well_formed_child [OF "1.prems"(1) this]
    show ?thesis
      using "1.IH" [OF c(1,2) wfc(1) c(3)] wfc(2) by simp
  qed
qed

text \<open>
  Claim C1. In every state the mutations reach, every octant of the tree has a count
  equal to the number of objects in its own list plus the counts of its existing
  children; an absent child contributes 0.
\<close>

theorem numNodes_invariant:
  assumes "reachable pol tree" and "oct \<in> set (octants (root tree))"
  shows "numNodes (members oct)
    = length (nodes (members oct)) + sum_list (map child_numNodes (children oct))"
proof -
  have "well_formed (root tree)"
    using reachable_invariant [OF assms(1)] by (simp add: tree_invariant_def)
  then have "well_formed oct"
    using well_formed_octants assms(2) by blast
  then show ?thesis by (cases oct) simp
qed

lemma octants_self: "octant \<in> set (octants octant)"
  by (cases octant) simp

theorem numNodes_invariant_witness:
  "numNodes (members (root tree2)) = 2
   \<and> length (nodes (members (root tree2))) = 0
   \<and> map child_numNodes (children (root tree2)) = [1, 0, 0, 0, 0, 0, 0, 1]
   \<and> numNodes (members (root tree2))
        = length (nodes (members (root tree2)))
          + sum_list (map child_numNodes (children (root tree2)))"
proof -
  have "numNodes (members (root tree2)) = 2"
    "length (nodes (members (root tree2))) = 0"
    "map child_numNodes (children (root tree2)) = [1, 0, 0, 0, 0, 0, 0, 1]"
    by code_simp+
  then show ?thesis
    using numNodes_invariant [OF reachable_tree2 octants_self] by simp
qed

section \<open>Insertion followed by removal\<close>

text \<open>
  Claim C5. Inserting an object that is in no octant and removing it at once gives back
  the state before the insertion: the same octants with the same objects and counts,
  and the object again without an octant.
\<close>

theorem InsertNode_RemoveNode_round_trip:
  assumes "reachable pol tree" and "node_octant (heap tree node) = None"
  shows "RemoveNode (InsertNode pol tree node) node = tree"
proof -
  let ?box = "WorldBoundingBox (heap tree node)"
  let ?r = "insert_into pol ?box node (root tree)"
  note inv = reachable_invariant [OF assms(1)]
  have wf: "well_formed (root tree)" using inv by (simp add: tree_invariant_def)
  have notin: "node \<notin> set (subtree_nodes (root tree))"
    using inv assms(2) by (simp add: tree_invariant_def)
  have rt: "remove_from node (snd ?r) (fst ?r) = Some (root tree)"
    using insert_into_round_trip [OF wf, of node pol ?box] notin by simp
  have "(heap tree node)\<lparr>node_octant := None\<rparr> = heap tree node"
    using assms(2) by simp
  then have "(heap tree)(node := (heap tree node)\<lparr>node_octant := None\<rparr>) = heap tree"
    by simp
  then show ?thesis
    using rt by (simp add: InsertNode_untracked [OF assms(2)] RemoveNode_def)
qed

theorem InsertNode_RemoveNode_round_trip_witness:
  "node_octant (heap tree1 6) = None
   \<and> octants (root (InsertNode sample_policy tree1 6)) \<noteq> octants (root tree1)
   \<and> RemoveNode (InsertNode sample_policy tree1 6) 6 = tree1"
proof -
  have un: "node_octant (heap tree1 6) = None" by code_simp
  have "length (octants (root (InsertNode sample_policy tree1 6))) = 3"
    "length (octants (root tree1)) = 2"
    by code_simp+
  then have "octants (root (InsertNode sample_policy tree1 6)) \<noteq> octants (root tree1)"
    by auto
  then show ?thesis
    using un InsertNode_RemoveNode_round_trip [OF reachable_tree1 un] by simp
qed


section \<open>Queue operations and removal of untracked objects\<close>

lemma distinct_count_list:
  "distinct xs \<Longrightarrow> count_list xs x = (if x \<in> set xs then 1 else 0)"
  by (induction xs) auto

text \<open>
  Claim C8. Queuing an object twice leaves the state as queuing it once, and in a
  reachable state the object is then in the queue exactly once, so a drain processes it
  once. Cancelling an object that is not queued and removing an object that is in no
  octant leave the state unchanged. The operations are total: they return a state and
  have no error result.
\<close>

theorem queue_and_removal_no_ops:
  "QueueUpdate (QueueUpdate tree node) node = QueueUpdate tree node
   \<and> (reachable pol tree
        \<longrightarrow> count_list (updateQueue (QueueUpdate (QueueUpdate tree node) node)) node = 1)
   \<and> (node \<notin> set (updateQueue tree) \<longrightarrow> CancelUpdate tree node = tree)
   \<and> (node_octant (heap tree node) = None \<longrightarrow> RemoveNode tree node = tree)"
proof (intro conjI impI)
  show idem: "QueueUpdate (QueueUpdate tree node) node = QueueUpdate tree node"
    by (simp add: QueueUpdate_def)
  show "count_list (updateQueue (QueueUpdate (QueueUpdate tree node) node)) node = 1"
    if "reachable pol tree"
  proof -
    have "distinct (updateQueue tree)"
      using reachable_invariant [OF that] by (simp add: tree_invariant_def)
    then have "distinct (updateQueue (QueueUpdate tree node))"
      "node \<in> set (updateQueue (QueueUpdate tree node))"
      by (simp_all add: QueueUpdate_def)
    then show ?thesis
      unfolding idem by (simp add: distinct_count_list)
  qed
  show "CancelUpdate tree node = tree" if "node \<notin> set (updateQueue tree)"
    using that by (simp add: CancelUpdate_def)
  show "RemoveNode tree node = tree" if "node_octant (heap tree node) = None"
    using that by (simp add: RemoveNode_def)
qed

theorem queue_and_removal_no_ops_witness:
  "updateQueue (QueueUpdate (QueueUpdate tree2 6) 6) = [6]
   \<and> count_list (updateQueue (QueueUpdate (QueueUpdate tree2 6) 6)) 6 = 1
   \<and> 3 \<notin> set (updateQueue tree2) \<and> CancelUpdate tree2 3 = tree2
   \<and> node_octant (heap tree2 3) = None \<and> RemoveNode tree2 3 = tree2"
proof -
  have a: "updateQueue (QueueUpdate (QueueUpdate tree2 6) 6) = [6]"
    "3 \<notin> set (updateQueue tree2)" "node_octant (heap tree2 3) = None"
    by code_simp+
  show ?thesis
    using a queue_and_removal_no_ops [of tree2 6 sample_policy]
      queue_and_removal_no_ops [of tree2 3 sample_policy] reachable_tree2
    by simp
qed

section \<open>Depth bound and placement\<close>
































section \<open>Volume query over the whole tree\<close>

lemma CollectNodes_everything:
  assumes "\<forall>oct \<in> set (octants octant). IsInside volume (cullingBox (members oct)) \<noteq> OUTSIDE"
    and "\<forall>node \<in> set (subtree_nodes octant).
           IsInsideFast volume (WorldBoundingBox (h node)) \<noteq> OUTSIDE"
  shows "CollectNodes NF_ENABLED h [] octant volume nodeFlags
    = filter (enabled_match NF_ENABLED h nodeFlags) (subtree_nodes octant)"
  using assms
proof (induction octant rule: subtree_nodes.induct)
  case (1 d cs)
  show ?case
  proof (cases "IsInside volume (cullingBox d)")
    case OUTSIDE
    then show ?thesis using "1.prems"(1) by simp
  next
    case INSIDE
    then show ?thesis by (simp add: CollectNodesFlags_eq)
  next
    case INTERSECT
    have own: "filter (\<lambda>node. enabled_match NF_ENABLED h nodeFlags node
                      \<and> IsInsideFast volume (WorldBoundingBox (h node)) \<noteq> OUTSIDE) (nodes d)
        = filter (enabled_match NF_ENABLED h nodeFlags) (nodes d)"
      using "1.prems"(2) by (intro filter_cong) auto
    have sub: "CollectNodes NF_ENABLED h [] ch volume nodeFlags
        = filter (enabled_match NF_ENABLED h nodeFlags) (subtree_nodes ch)"
      if "Some ch \<in> set cs" for ch
    proof (rule "1.IH" [OF that refl])
      show "\<forall>oct \<in> set (octants ch). IsInside volume (cullingBox (members oct)) \<noteq> OUTSIDE"
        using "1.prems"(1) that by force
      show "\<forall>node \<in> set (subtree_nodes ch).
           IsInsideFast volume (WorldBoundingBox (h node)) \<noteq> OUTSIDE"
        using "1.prems"(2) that by force
    qed
    have "concat (map (\<lambda>c. CollectNodes NF_ENABLED h [] c volume nodeFlags) (existing cs))
      = concat (map (\<lambda>c. filter (enabled_match NF_ENABLED h nodeFlags) (subtree_nodes c))
          (existing cs))"
      using sub by (intro arg_cong [where f = concat] map_cong refl)
        (auto simp: existing_def split: option.splits)
    then show ?thesis
      using INTERSECT own
      by (simp add: CollectNodes_intersect_nodes CollectNodes_children
          filter_concat_children concat_existing filter_concat comp_def)
  qed
qed

lemma tracked_iff_in_tree:
  assumes "tree_invariant tree"
  shows "set (subtree_nodes (root tree)) = {node. node_octant (heap tree node) \<noteq> None}"
proof -
  have "node \<in> set (subtree_nodes (root tree))" if "node_octant (heap tree node) = Some p"
    for node p
    using assms that holds_node_subtree by (simp add: tree_invariant_def) blast
  moreover have "node \<notin> set (subtree_nodes (root tree))" if "node_octant (heap tree node) = None"
    for node
    using assms that by (simp add: tree_invariant_def)
  ultimately show ?thesis by auto
qed

text \<open>
  Claim C3. In a reachable state, for a volume that puts no octant's culling box and no
  tracked object's box outside, and flags that match every object, \<^verbatim>\<open>FindNodes\<close> returns
  the enabled objects that have an octant, each exactly once.
\<close>

theorem FindNodes_enclosing_volume:
  assumes "reachable pol tree"
    and "\<forall>oct \<in> set (octants (root tree)).
           IsInside volume (cullingBox (members oct)) \<noteq> OUTSIDE"
    and "\<forall>node \<in> set (subtree_nodes (root tree)).
           IsInsideFast volume (WorldBoundingBox (heap tree node)) \<noteq> OUTSIDE"
    and "\<forall>node \<in> set (subtree_nodes (root tree)). Flags (heap tree node) AND nodeFlags \<noteq> 0"
  shows "distinct (FindNodes NF_ENABLED tree dest volume nodeFlags)
    \<and> set (FindNodes NF_ENABLED tree dest volume nodeFlags)
        = {node. node_octant (heap tree node) \<noteq> None
                 \<and> Flags (heap tree node) AND NF_ENABLED \<noteq> 0}"
proof -
  note inv = reachable_invariant [OF assms(1)]
  have eq: "FindNodes NF_ENABLED tree dest volume nodeFlags
    = filter (enabled_match NF_ENABLED (heap tree) nodeFlags) (subtree_nodes (root tree))"
    using CollectNodes_everything [OF assms(2,3)] by (simp add: FindNodes_def)
  have "distinct (subtree_nodes (root tree))"
    using inv by (simp add: tree_invariant_def)
  then show ?thesis
    using assms(4) tracked_iff_in_tree [OF inv]
    unfolding eq by (auto simp: enabled_match_def)
qed


theorem FindNodes_enclosing_volume_witness:
  "subtree_nodes (root tree3) = [1, 2, 6]
   \<and> FindNodes 1 tree3 [9] enclosing_volume 2 = [1, 6]
   \<and> {node. node_octant (heap tree3 node) \<noteq> None \<and> Flags (heap tree3 node) AND 1 \<noteq> 0}
       = {1, 6}"
proof -
  have ns: "subtree_nodes (root tree3) = [1, 2, 6]" by code_simp
  have fl: "Flags (heap tree3 1) AND 2 \<noteq> 0" "Flags (heap tree3 2) AND 2 \<noteq> 0"
    "Flags (heap tree3 6) AND 2 \<noteq> 0"
    by code_simp+
  have res: "FindNodes 1 tree3 [9] enclosing_volume 2 = [1, 6]" by code_simp
  have h1: "\<forall>oct \<in> set (octants (root tree3)).
      IsInside enclosing_volume (cullingBox (members oct)) \<noteq> OUTSIDE"
    by (simp add: enclosing_volume_def)
  have h2: "\<forall>node \<in> set (subtree_nodes (root tree3)).
      IsInsideFast enclosing_volume (WorldBoundingBox (heap tree3 node)) \<noteq> OUTSIDE"
    by (simp add: enclosing_volume_def)
  have h3: "\<forall>node \<in> set (subtree_nodes (root tree3)). Flags (heap tree3 node) AND 2 \<noteq> 0"
    using fl by (simp add: ns)
  show ?thesis
    using ns res FindNodes_enclosing_volume [OF reachable_tree3 h1 h2 h3, of 1 "[9]"]
    by simp
qed

section \<open>Nearest ray hit\<close>

lemma fold_closer_Some:
  "\<exists>r. fold closer rs (Some b) = Some r
     \<and> distance r = Min (distance ` set (b # rs))
     \<and> List.find (\<lambda>x. distance x = Min (distance ` set (b # rs))) (b # rs) = Some r"
proof (induction rs arbitrary: b)
  case Nil
  then show ?case by simp
next
  case (Cons x xs)
  define b' where "b' = (if distance x < distance b then x else b)"
  have step: "closer x (Some b) = Some b'" by (simp add: closer_def b'_def)
  have m: "Min (distance ` set (b # x # xs)) = Min (distance ` set (b' # xs))"
  proof (cases "xs = []")
    case True
    then show ?thesis by (simp add: b'_def min_def)
  next
    case False
    then show ?thesis
      by (simp add: b'_def min_def) (auto simp: min_def)
  qed
  from Cons.IH [of b'] obtain r where r: "fold closer xs (Some b') = Some r"
    "distance r = Min (distance ` set (b' # xs))"
    "List.find (\<lambda>x. distance x = Min (distance ` set (b' # xs))) (b' # xs) = Some r"
    by blast
  define M where "M = Min (distance ` set (b' # xs))"
  have le: "M \<le> distance b'" unfolding M_def by simp
  have "List.find (\<lambda>y. distance y = M) (b' # xs) = Some r"
    using r(3) unfolding M_def .
  then have "List.find (\<lambda>y. distance y = M) (b # x # xs) = Some r"
    using le by (auto simp: b'_def split: if_splits)
  then have fnd: "List.find (\<lambda>y. distance y = Min (distance ` set (b # x # xs))) (b # x # xs)
      = Some r"
    unfolding m M_def .
  have f: "fold closer (x # xs) (Some b) = Some r"
    using r(1) step by simp
  have d: "distance r = Min (distance ` set (b # x # xs))"
    unfolding m by (rule r(2))
  show ?case
    by (intro exI [of _ r] conjI) (fact f, fact d, fact fnd)
qed

lemma fold_closer_None:
  "rs \<noteq> [] \<Longrightarrow>
   \<exists>r. fold closer rs None = Some r
     \<and> distance r = Min (distance ` set rs)
     \<and> List.find (\<lambda>x. distance x = Min (distance ` set rs)) rs = Some r"
  using fold_closer_Some by (cases rs) (simp_all add: closer_def)

lemma hd_sort_Min: "xs \<noteq> [] \<Longrightarrow> hd (sort xs) = Min (set (xs :: real list))"
proof -
  assume ne: "xs \<noteq> []"
  then have ne': "sort xs \<noteq> []" by (metis length_0_conv length_sort)
  have "Min (set (sort xs)) = hd (sort xs)"
  proof (rule Min_eqI)
    show "finite (set (sort xs))" by simp
    show "hd (sort xs) \<in> set (sort xs)" using ne' by (rule hd_in_set)
    fix y assume "y \<in> set (sort xs)"
    then show "hd (sort xs) \<le> y"
      using ne' sorted_sort [of xs] by (cases "sort xs") auto
  qed
  then show ?thesis by simp
qed

text \<open>
  Claim C4. When \<^verbatim>\<open>Raycast\<close> returns no hit, \<^verbatim>\<open>RaycastSingle\<close> returns none. Otherwise
  it returns a hit whose distance is the minimum of the distances of the hits of
  \<^verbatim>\<open>Raycast\<close> for the same arguments, which is the first of those distances sorted
  ascending; among the hits at that distance it is the first in traversal order.
\<close>

theorem RaycastSingle_nearest:
  "(Raycast tests NF_ENABLED tree ray nodeFlags maxDistance = []
      \<longrightarrow> RaycastSingle tests NF_ENABLED tree ray nodeFlags maxDistance = None)
   \<and> (Raycast tests NF_ENABLED tree ray nodeFlags maxDistance \<noteq> []
      \<longrightarrow> (\<exists>r. RaycastSingle tests NF_ENABLED tree ray nodeFlags maxDistance = Some r
            \<and> distance r
                = Min (set (map distance (Raycast tests NF_ENABLED tree ray nodeFlags maxDistance)))
            \<and> distance r
                = hd (sort (map distance (Raycast tests NF_ENABLED tree ray nodeFlags maxDistance)))
            \<and> List.find
                 (\<lambda>x. distance x
                    = Min (set (map distance
                             (Raycast tests NF_ENABLED tree ray nodeFlags maxDistance))))
                 (Raycast tests NF_ENABLED tree ray nodeFlags maxDistance) = Some r))"
proof (cases "Raycast tests NF_ENABLED tree ray nodeFlags maxDistance = []")
  case True
  then show ?thesis by (simp add: RaycastSingle_def Raycast_def)
next
  case False
  from fold_closer_None [OF False] show ?thesis
    using False hd_sort_Min [of "map distance (Raycast tests NF_ENABLED tree ray nodeFlags maxDistance)"]
    by (simp add: RaycastSingle_def Raycast_def)
qed

theorem RaycastSingle_nearest_witness:
  "map distance (Raycast sample_tests 1 tree3 sample_ray 2 None) = [7, 2]
   \<and> map_option hit_node (RaycastSingle sample_tests 1 tree3 sample_ray 2 None) = Some 6
   \<and> map_option distance (RaycastSingle sample_tests 1 tree3 sample_ray 2 None) = Some 2"
proof -
  have ev: "map distance (Raycast sample_tests 1 tree3 sample_ray 2 None) = [7, 2]"
    "map_option hit_node (RaycastSingle sample_tests 1 tree3 sample_ray 2 None) = Some 6"
    by code_simp+
  then have "Raycast sample_tests 1 tree3 sample_ray 2 None \<noteq> []" by auto
  then show ?thesis
    using ev RaycastSingle_nearest [of sample_tests 1 tree3 sample_ray 2 None]
    by auto
qed

end
